theory Spec2Isabelle
  imports Complex_Main "HOL-Library.Log_Nat"
begin

section \<open>JavaScript numbers\<close>

text \<open>
  Every number of the benchmark harness (\<^verbatim>\<open>src/test/runner.js\<close>) is a JavaScript Number,
  an IEEE 754 binary64 value.  A finite value is represented by the rational it denotes,
  and every arithmetic operation rounds its exact result to the nearest binary64 value,
  ties to even (\<open>fl\<close>).  The two zeros are identified: \<open>Fin 0\<close> stands for \<open>+0\<close>
  and \<open>-0\<close>, and a division by zero is the division by \<open>+0\<close>.
\<close>

datatype jsnum = Fin rat | PInf | NInf | NaN

definition ilog2 :: "rat \<Rightarrow> int" where
  \<comment> \<open>\<open>\<lfloor>log\<^sub>2 q\<rfloor>\<close> of a positive rational, from the bit lengths of numerator and denominator\<close>
  "ilog2 q = (case quotient_of q of (p, d) \<Rightarrow>
     let l = bitlen p - bitlen d in if 2 powi l \<le> q then l else l - 1)"

definition round_even :: "rat \<Rightarrow> int" where
  \<comment> \<open>nearest integer, a tie goes to the even neighbour\<close>
  "round_even x = (let f = \<lfloor>x\<rfloor>; d = x - of_int f in
     if d < 1 / 2 then f else if 1 / 2 < d then f + 1 else if even f then f else f + 1)"

definition ulp_of :: "rat \<Rightarrow> rat" where
  \<comment> \<open>the spacing of the binary64 values around a positive rational: 53 significant bits,
      with the exponent kept at -1022 or above (the subnormal range)\<close>
  "ulp_of a = 2 powi (max (ilog2 a) (- 1022) - 52)"

definition round_magnitude :: "rat \<Rightarrow> rat" where
  \<comment> \<open>a positive rational, rounded to a multiple of its spacing\<close>
  "round_magnitude a = of_int (round_even (a / ulp_of a)) * ulp_of a"

definition overflow_threshold :: rat where
  \<comment> \<open>\<open>2\<^sup>1\<^sup>0\<^sup>2\<^sup>4\<close>: a magnitude that rounds to it is beyond the largest binary64 value\<close>
  "overflow_threshold = 2 powi 1024"

definition fl :: "rat \<Rightarrow> jsnum" where
  \<comment> \<open>binary64 rounding to nearest, ties to even, overflow to an infinity\<close>
  "fl q = (if q = 0 then Fin 0 else
     let r = round_magnitude \<bar>q\<bar>
     in if overflow_threshold \<le> r then (if 0 < q then PInf else NInf)
        else Fin (sgn q * r))"

definition is_double :: "rat \<Rightarrow> bool" where
  \<comment> \<open>the rational is the value of a finite binary64 number\<close>
  "is_double q = (fl q = Fin q)"

fun js_neg :: "jsnum \<Rightarrow> jsnum" where
  "js_neg (Fin x) = Fin (- x)"
| "js_neg PInf = NInf"
| "js_neg NInf = PInf"
| "js_neg NaN = NaN"

fun js_add :: "jsnum \<Rightarrow> jsnum \<Rightarrow> jsnum" where
  "js_add NaN b = NaN"
| "js_add a NaN = NaN"
| "js_add PInf NInf = NaN"
| "js_add NInf PInf = NaN"
| "js_add PInf b = PInf"
| "js_add a PInf = PInf"
| "js_add NInf b = NInf"
| "js_add a NInf = NInf"
| "js_add (Fin x) (Fin y) = fl (x + y)"

definition js_sub :: "jsnum \<Rightarrow> jsnum \<Rightarrow> jsnum" where
  "js_sub a b = js_add a (js_neg b)"

definition js_sign :: "jsnum \<Rightarrow> int" where
  \<comment> \<open>-1, 0 or 1; only used on values that are not NaN\<close>
  "js_sign a = (case a of Fin x \<Rightarrow> (if x < 0 then - 1 else if x = 0 then 0 else 1)
                | PInf \<Rightarrow> 1 | NInf \<Rightarrow> - 1 | NaN \<Rightarrow> 0)"

definition js_signed_inf :: "int \<Rightarrow> jsnum" where
  "js_signed_inf s = (if s = 0 then NaN else if 0 < s then PInf else NInf)"

fun js_mul :: "jsnum \<Rightarrow> jsnum \<Rightarrow> jsnum" where
  "js_mul NaN b = NaN"
| "js_mul a NaN = NaN"
| "js_mul (Fin x) (Fin y) = fl (x * y)"
| "js_mul a b = js_signed_inf (js_sign a * js_sign b)"

fun js_div :: "jsnum \<Rightarrow> jsnum \<Rightarrow> jsnum" where
  "js_div NaN b = NaN"
| "js_div a NaN = NaN"
| "js_div (Fin x) (Fin y) = (if y = 0 then js_signed_inf (js_sign (Fin x)) else fl (x / y))"
| "js_div (Fin x) b = Fin 0"
| "js_div a (Fin y) = (if y < 0 then js_neg a else a)"
| "js_div a b = NaN"

fun js_lt :: "jsnum \<Rightarrow> jsnum \<Rightarrow> bool" where
  "js_lt NaN b = False"
| "js_lt a NaN = False"
| "js_lt (Fin x) (Fin y) = (x < y)"
| "js_lt a NInf = False"
| "js_lt NInf b = True"
| "js_lt PInf b = False"
| "js_lt a PInf = True"

definition js_gt :: "jsnum \<Rightarrow> jsnum \<Rightarrow> bool" where
  "js_gt a b = js_lt b a"

fun js_le :: "jsnum \<Rightarrow> jsnum \<Rightarrow> bool" where
  "js_le NaN b = False"
| "js_le a NaN = False"
| "js_le a b = (\<not> js_lt b a)"

definition js_ge :: "jsnum \<Rightarrow> jsnum \<Rightarrow> bool" where
  "js_ge a b = js_le b a"

fun js_abs :: "jsnum \<Rightarrow> jsnum" where
  "js_abs (Fin x) = Fin \<bar>x\<bar>"
| "js_abs NInf = PInf"
| "js_abs a = a"

fun js_floor :: "jsnum \<Rightarrow> jsnum" where
  "js_floor (Fin x) = Fin (of_int \<lfloor>x\<rfloor>)"
| "js_floor a = a"

definition js_isNaN :: "jsnum \<Rightarrow> bool" where
  "js_isNaN a = (a = NaN)"

fun js_max2 :: "jsnum \<Rightarrow> jsnum \<Rightarrow> jsnum" where
  "js_max2 NaN b = NaN"
| "js_max2 a NaN = NaN"
| "js_max2 a b = (if js_lt a b then b else a)"

fun js_min2 :: "jsnum \<Rightarrow> jsnum \<Rightarrow> jsnum" where
  "js_min2 NaN b = NaN"
| "js_min2 a NaN = NaN"
| "js_min2 a b = (if js_lt b a then b else a)"

definition Math_max :: "jsnum list \<Rightarrow> jsnum" where
  \<comment> \<open>\<^verbatim>\<open>Math.max(...xs)\<close>: \<open>-Infinity\<close> for no argument, NaN as soon as one argument is NaN\<close>
  "Math_max xs = foldl js_max2 NInf xs"

definition Math_min :: "jsnum list \<Rightarrow> jsnum" where
  "Math_min xs = foldl js_min2 PInf xs"

function isqrt :: "int \<Rightarrow> int" where
  \<comment> \<open>integer square root, two bits at a time\<close>
  "isqrt n = (if n < 4 then (if n \<le> 0 then 0 else 1)
     else let s = 2 * isqrt (n div 4) in if (s + 1) * (s + 1) \<le> n then s + 1 else s)"
  by pat_completeness auto
termination
  by (relation "measure nat") auto

definition fl_sqrt :: "rat \<Rightarrow> rat" where
  \<comment> \<open>the binary64 value nearest to the square root of a positive rational\<close>
  "fl_sqrt a = (let e = ilog2 a div 2;
                    u = 2 powi (e - 52);
                    t = a / (u * u);
                    f = isqrt \<lfloor>t\<rfloor>;
                    h = of_int f + 1 / 2
                in of_int (if t < h * h then f else if h * h < t then f + 1
                           else if even f then f else f + 1) * u)"

fun Math_sqrt :: "jsnum \<Rightarrow> jsnum" where
  "Math_sqrt (Fin x) = (if x < 0 then NaN else if x = 0 then Fin 0 else Fin (fl_sqrt x))"
| "Math_sqrt PInf = PInf"
| "Math_sqrt a = NaN"

text \<open>
  A value read from an array or an object is a number or \<^verbatim>\<open>undefined\<close> (\<open>None\<close>);
  arithmetic converts \<^verbatim>\<open>undefined\<close> to NaN.
\<close>

definition to_number :: "jsnum option \<Rightarrow> jsnum" where
  "to_number v = (case v of None \<Rightarrow> NaN | Some a \<Rightarrow> a)"

definition js_length :: "'a list \<Rightarrow> jsnum" where
  \<comment> \<open>\<^verbatim>\<open>xs.length\<close>; a JavaScript array has fewer than \<open>2\<^sup>3\<^sup>2\<close> elements, all exact\<close>
  "js_length xs = Fin (of_nat (length xs))"

definition js_index :: "jsnum option list \<Rightarrow> jsnum \<Rightarrow> jsnum option" where
  \<comment> \<open>\<^verbatim>\<open>xs[k]\<close>: \<^verbatim>\<open>undefined\<close> unless \<open>k\<close> is an integer index below the length\<close>
  "js_index xs k = (case k of
      Fin q \<Rightarrow> if 0 \<le> q \<and> of_int \<lfloor>q\<rfloor> = q \<and> nat \<lfloor>q\<rfloor> < length xs then xs ! nat \<lfloor>q\<rfloor> else None
    | _ \<Rightarrow> None)"

fun js_insort :: "jsnum \<Rightarrow> jsnum list \<Rightarrow> jsnum list" where
  \<comment> \<open>insertion under the comparator \<^verbatim>\<open>(a, b) => a - b\<close>: \<open>x\<close> goes behind \<open>y\<close> only when
      \<open>x - y > 0\<close> (a NaN difference counts as 0)\<close>
  "js_insort x [] = [x]"
| "js_insort x (y # ys) =
     (if js_gt (js_sub x y) (Fin 0) then y # js_insort x ys else x # y # ys)"

definition js_sort :: "jsnum option list \<Rightarrow> jsnum option list" where
  \<comment> \<open>\<^verbatim>\<open>[...times].sort((a, b) => a - b)\<close>: a stable sort of a copy, \<^verbatim>\<open>undefined\<close> elements
      last.  With a NaN among the elements ECMAScript leaves the order to the
      implementation; the statements about order below are about NaN-free input.\<close>
  "js_sort xs = map Some (foldr js_insort (map the (filter (\<lambda>v. v \<noteq> None) xs)) [])
                @ filter (\<lambda>v. v = None) xs"

section \<open>MemoryProbe: \<^verbatim>\<open>measureMemory\<close> and \<^verbatim>\<open>calculateMemoryUsage\<close>\<close>

text \<open>
  \<^verbatim>\<open>measureMemory\<close> returns the object of \<^verbatim>\<open>process.memoryUsage()\<close> under Node.js, the
  \<^verbatim>\<open>performance.memory\<close> object in a browser (which has none of the four properties read
  here), or the sentinel \<^verbatim>\<open>{ unavailable: true }\<close>.
\<close>

record memory_usage =
  heapUsed :: jsnum
  heapTotal :: jsnum
  external :: jsnum
  rss :: jsnum

datatype snapshot = Unavailable | NodeMemory memory_usage | BrowserMemory

datatype memory_delta = DeltaUnavailable | Delta memory_usage

definition unavailable :: "snapshot \<Rightarrow> bool" where
  \<comment> \<open>the truth value of \<^verbatim>\<open>s.unavailable\<close>\<close>
  "unavailable s = (s = Unavailable)"

definition snapshot_field :: "(memory_usage \<Rightarrow> jsnum) \<Rightarrow> snapshot \<Rightarrow> jsnum option" where
  "snapshot_field f s = (case s of NodeMemory u \<Rightarrow> Some (f u) | _ \<Rightarrow> None)"

definition delta_field :: "(memory_usage \<Rightarrow> jsnum) \<Rightarrow> memory_delta \<Rightarrow> jsnum option" where
  "delta_field f d = (case d of Delta u \<Rightarrow> Some (f u) | DeltaUnavailable \<Rightarrow> None)"

definition calculateMemoryUsage :: "snapshot \<Rightarrow> snapshot \<Rightarrow> memory_delta" where
  "calculateMemoryUsage before after =
     (if unavailable before \<or> unavailable after then DeltaUnavailable
      else Delta \<lparr>
        heapUsed = js_sub (to_number (snapshot_field heapUsed after))
                          (to_number (snapshot_field heapUsed before)),
        heapTotal = js_sub (to_number (snapshot_field heapTotal after))
                           (to_number (snapshot_field heapTotal before)),
        external = js_sub (to_number (snapshot_field external after))
                          (to_number (snapshot_field external before)),
        rss = js_sub (to_number (snapshot_field rss after))
                     (to_number (snapshot_field rss before)) \<rparr>)"

section \<open>StatisticsCalculator: \<^verbatim>\<open>calculateStats\<close>\<close>

record stat_summary =
  min_stat :: "jsnum option"
  max_stat :: "jsnum option"
  mean :: jsnum
  median :: "jsnum option"
  stdDev :: jsnum
  p95 :: "jsnum option"
  p99 :: "jsnum option"

definition maxIndex :: "'a list \<Rightarrow> jsnum" where
  \<comment> \<open>\<^verbatim>\<open>sorted.length - 1\<close>\<close>
  "maxIndex sorted_v = js_sub (js_length sorted_v) (Fin 1)"

definition medianIndex :: "'a list \<Rightarrow> jsnum" where
  \<comment> \<open>\<^verbatim>\<open>Math.floor(sorted.length / 2)\<close>\<close>
  "medianIndex sorted_v = js_floor (js_div (js_length sorted_v) (Fin 2))"

definition p95Index :: "'a list \<Rightarrow> jsnum" where
  \<comment> \<open>\<^verbatim>\<open>Math.floor(sorted.length * 0.95)\<close>; the literal is the binary64 value nearest to 95/100\<close>
  "p95Index sorted_v = js_floor (js_mul (js_length sorted_v) (fl (95 / 100)))"

definition p99Index :: "'a list \<Rightarrow> jsnum" where
  \<comment> \<open>\<^verbatim>\<open>Math.floor(sorted.length * 0.99)\<close>\<close>
  "p99Index sorted_v = js_floor (js_mul (js_length sorted_v) (fl (99 / 100)))"

definition calculateStats :: "jsnum option list \<Rightarrow> stat_summary" where
  "calculateStats times_v =
     (let total = foldl (\<lambda>a b. js_add a (to_number b)) (Fin 0) times_v;
          mean_v = js_div total (js_length times_v);
          squareDiffs = map (\<lambda>v. let diff = js_sub (to_number v) mean_v
                                   in js_mul diff diff) times_v;
          avgSquareDiff = js_div (foldl js_add (Fin 0) squareDiffs) (js_length times_v);
          stdDev_v = Math_sqrt avgSquareDiff;
          sorted_v = js_sort times_v
      in \<lparr> min_stat = js_index sorted_v (Fin 0),
           max_stat = js_index sorted_v (maxIndex sorted_v),
           mean = mean_v,
           median = js_index sorted_v (medianIndex sorted_v),
           stdDev = stdDev_v,
           p95 = js_index sorted_v (p95Index sorted_v),
           p99 = js_index sorted_v (p99Index sorted_v) \<rparr>)"

definition exactly_summed :: "rat list \<Rightarrow> bool" where
  \<comment> \<open>no addition of \<^verbatim>\<open>times.reduce((a, b) => a + b, 0)\<close> rounds: every partial sum is a
      binary64 value\<close>
  "exactly_summed xs = list_all (\<lambda>k. is_double (sum_list (take k xs))) [1..<Suc (length xs)]"

definition unit_roundoff :: rat where
  \<comment> \<open>\<open>2\<^sup>-\<^sup>5\<^sup>3\<close>, the largest relative error of one rounding of a normal binary64 value\<close>
  "unit_roundoff = 2 powi (- 53)"

definition tiny :: rat where
  \<comment> \<open>\<open>2\<^sup>-\<^sup>1\<^sup>0\<^sup>7\<^sup>5\<close>, the largest error of one rounding in the subnormal range\<close>
  "tiny = 2 powi (- 1075)"

definition mean_slack :: "nat \<Rightarrow> rat \<Rightarrow> rat" where
  \<comment> \<open>a bound on the error of the mean of \<open>n\<close> samples of magnitude at most \<open>a\<close>:
      \<open>n\<close> rounded additions and one rounded division\<close>
  "mean_slack n a = of_nat (n + 2) * unit_roundoff * a + 4 * tiny"

definition tenth :: rat where
  \<comment> \<open>the binary64 value of the literal \<^verbatim>\<open>0.1\<close>, an input for the examples below\<close>
  "tenth = 3602879701896397 / 36028797018963968"

definition huge :: rat where
  \<comment> \<open>\<open>2\<^sup>1\<^sup>0\<^sup>2\<^sup>3\<close>, a binary64 value whose double is beyond the largest one\<close>
  "huge = 2 powi 1023"

section \<open>OutputValidator: the validators of \<^verbatim>\<open>TEST_CONFIGS\<close>\<close>

text \<open>
  The values a validator receives.  An array element is a number or \<^verbatim>\<open>undefined\<close>.
  A discrepancy is kept as the message template with the values it interpolates; the
  rendering of the numbers (\<^verbatim>\<open>toFixed\<close>) is not modelled.
\<close>

datatype jsval = Undefined | Null | Bool bool | Num jsnum | Str string
  | Arr "jsnum option list" | Obj

datatype discrepancy =
    ResultsUndefinedOrNull
  | ResultsNotArrays
  | ArrayLengthMismatch nat nat
  | ContainsNaN nat "jsnum option" "jsnum option"
  | IndexMismatch nat jsnum jsnum jsnum
  | TestExecutionFailed string
  | Message string

record validation =
  success :: bool
  discrepancies :: "discrepancy list"

fun truthy :: "jsval \<Rightarrow> bool" where
  "truthy Undefined = False"
| "truthy Null = False"
| "truthy (Bool b) = b"
| "truthy (Num a) = (a \<noteq> NaN \<and> a \<noteq> Fin 0)"
| "truthy (Str s) = (s \<noteq> [])"
| "truthy (Arr xs) = True"
| "truthy Obj = True"

definition js_nth :: "jsnum option list \<Rightarrow> nat \<Rightarrow> jsnum option" where
  \<comment> \<open>\<^verbatim>\<open>xs[i]\<close> for a loop counter \<open>i\<close>\<close>
  "js_nth xs i = (if i < length xs then xs ! i else None)"

definition relative_diff :: "jsnum \<Rightarrow> jsnum \<Rightarrow> jsnum" where
  \<comment> \<open>\<^verbatim>\<open>Math.abs(w - j) / Math.max(Math.abs(w), Math.abs(j), 1e-10)\<close>\<close>
  "relative_diff w j =
     (let denominator = Math_max [js_abs w, js_abs j, fl (1 / 10 ^ 10)]
      in js_div (js_abs (js_sub w j)) denominator)"

definition check_index :: "jsnum \<Rightarrow> jsnum option list \<Rightarrow> jsnum option list \<Rightarrow> nat
    \<Rightarrow> discrepancy list" where
  \<comment> \<open>one pass of the comparison loop: what it pushes for index \<open>i\<close>\<close>
  "check_index tolerance wasmResult jsResult i =
     (let w = js_nth wasmResult i; j = js_nth jsResult i in
      if js_isNaN (to_number w) \<or> js_isNaN (to_number j) then [ContainsNaN i w j]
      else let diff = relative_diff (to_number w) (to_number j) in
           if js_gt diff tolerance then [IndexMismatch i (to_number w) (to_number j) diff]
           else [])"

definition element_discrepancies :: "jsnum \<Rightarrow> jsnum option list \<Rightarrow> jsnum option list
    \<Rightarrow> discrepancy list" where
  \<comment> \<open>\<^verbatim>\<open>for (let i = 0; i < wasmResult.length; i++)\<close>: the list before truncation\<close>
  "element_discrepancies tolerance wasmResult jsResult =
     concat (map (check_index tolerance wasmResult jsResult) [0..<length wasmResult])"

definition array_validator :: "jsnum \<Rightarrow> jsval \<Rightarrow> jsval \<Rightarrow> validation" where
  \<comment> \<open>the body shared, up to the tolerance, by the fft and the gradient validator\<close>
  "array_validator tolerance wasmResult jsResult =
     (if \<not> truthy wasmResult \<or> \<not> truthy jsResult
      then \<lparr> success = False, discrepancies = [ResultsUndefinedOrNull] \<rparr>
      else case (wasmResult, jsResult) of
        (Arr w, Arr j) \<Rightarrow>
          if length w \<noteq> length j
          then \<lparr> success = False, discrepancies = [ArrayLengthMismatch (length w) (length j)] \<rparr>
          else let ds = element_discrepancies tolerance w j
               in \<lparr> success = (length ds = 0), discrepancies = take 3 ds \<rparr>
      | _ \<Rightarrow> \<lparr> success = False, discrepancies = [ResultsNotArrays] \<rparr>)"

definition fft_validator :: "jsval \<Rightarrow> jsval \<Rightarrow> validation" where
  \<comment> \<open>\<^verbatim>\<open>TEST_CONFIGS.fft.validator\<close>, tolerance 0.01\<close>
  "fft_validator = array_validator (fl (1 / 100))"

definition gradient_validator :: "jsval \<Rightarrow> jsval \<Rightarrow> validation" where
  \<comment> \<open>\<^verbatim>\<open>TEST_CONFIGS.gradient.validator\<close>, tolerance 0.15\<close>
  "gradient_validator = array_validator (fl (15 / 100))"

section \<open>BenchmarkEngine: \<^verbatim>\<open>TestRunner.runTest\<close>\<close>

datatype exn = JsError string | JsTypeError string

fun message :: "exn \<Rightarrow> string" where
  "message (JsError m) = m"
| "message (JsTypeError m) = m"

record heap_details =
  heap_min :: jsnum
  heap_max :: jsnum
  heap_mean :: jsnum
  heap_median :: jsnum

record external_details =
  external_min :: jsnum
  external_max :: jsnum
  external_mean :: jsnum

record memory_detail =
  heapUsed_detail :: heap_details
  external_detail :: external_details

record memory_details =
  wasm_detail :: memory_detail
  js_detail :: memory_detail

text \<open>
  \<open>series\<close> holds the properties of \<^verbatim>\<open>metrics\<close> that the trial loop updates; \<open>metrics\<close>
  is the object \<^verbatim>\<open>runTest\<close> returns (its \<^verbatim>\<open>type\<close> and \<^verbatim>\<open>size\<close> are \<open>type_name\<close> and
  \<open>size_name\<close> here).
\<close>

record series =
  wasmTimes :: "jsnum list"
  jsTimes :: "jsnum list"
  wasmMemory :: "memory_delta list"
  jsMemory :: "memory_delta list"
  validationResults :: validation

record metrics = series +
  algorithm :: string
  type_name :: string
  size_name :: string
  wasmStats :: stat_summary
  jsStats :: stat_summary
  wasmMemoryStats :: stat_summary
  jsMemoryStats :: stat_summary
  speedup :: jsnum
  memoryDetails :: memory_details

text \<open>
  The runner and its host.  The two implementations, the clock, the memory probe and the
  export hook are effects: each is given by what its \<open>k\<close>-th use yields, and the \<open>world\<close>
  counts and logs the uses.  An implementation or a hook that throws yields an \<open>exn\<close>.
  \<^verbatim>\<open>exportResults\<close> is \<open>None\<close> when the property is not a function.  A validator returns
  a validation outcome, returns \<^verbatim>\<open>undefined\<close> (\<open>None\<close>) or throws.  \<^verbatim>\<open>console.log\<close> is
  not modelled.
\<close>

record ('i, 'o) runner =
  wasm :: "nat \<Rightarrow> 'i \<Rightarrow> exn + 'o"
  js :: "nat \<Rightarrow> 'i \<Rightarrow> exn + 'o"
  performance_now :: "nat \<Rightarrow> jsnum"
  measureMemory :: "nat \<Rightarrow> snapshot"
  exportResults :: "(metrics \<Rightarrow> exn option) option"
  saveToJson :: bool

record ('i, 'o) world =
  clock_reads :: nat
  memory_reads :: nat
  wasm_calls :: "'i list"
  js_calls :: "'i list"
  validator_calls :: "('o \<times> 'o) list"
  export_calls :: "metrics list"
  allResults :: "metrics list"

type_synonym 'o validator = "'o \<Rightarrow> 'o \<Rightarrow> exn + validation option"

definition read_clock :: "('i, 'o) runner \<Rightarrow> ('i, 'o) world \<Rightarrow> jsnum \<times> ('i, 'o) world" where
  "read_clock r s = (performance_now r (clock_reads s), s\<lparr>clock_reads := Suc (clock_reads s)\<rparr>)"

definition read_memory :: "('i, 'o) runner \<Rightarrow> ('i, 'o) world \<Rightarrow> snapshot \<times> ('i, 'o) world" where
  "read_memory r s = (measureMemory r (memory_reads s), s\<lparr>memory_reads := Suc (memory_reads s)\<rparr>)"

definition run_wasm :: "('i, 'o) runner \<Rightarrow> 'i \<Rightarrow> ('i, 'o) world \<Rightarrow> (exn + 'o) \<times> ('i, 'o) world" where
  \<comment> \<open>\<^verbatim>\<open>await this.wasm.runAlgorithm(testData)\<close>\<close>
  "run_wasm r testData s =
     (wasm r (length (wasm_calls s)) testData, s\<lparr>wasm_calls := wasm_calls s @ [testData]\<rparr>)"

definition run_js :: "('i, 'o) runner \<Rightarrow> 'i \<Rightarrow> ('i, 'o) world \<Rightarrow> (exn + 'o) \<times> ('i, 'o) world" where
  \<comment> \<open>\<^verbatim>\<open>await this.js.runAlgorithm(testData)\<close>\<close>
  "run_js r testData s =
     (js r (length (js_calls s)) testData, s\<lparr>js_calls := js_calls s @ [testData]\<rparr>)"

definition measured :: "(('i, 'o) world \<Rightarrow> (exn + 'o) \<times> ('i, 'o) world) \<Rightarrow> ('i, 'o) runner
    \<Rightarrow> ('i, 'o) world \<Rightarrow> (exn + 'o \<times> jsnum \<times> memory_delta) \<times> ('i, 'o) world" where
  \<comment> \<open>the measurement block the loop body has once for each implementation: clock,
      memory, the call, memory, clock; the elapsed time and the memory delta\<close>
  "measured run r s0 =
     (let (start, s1) = read_clock r s0;
          (memoryBefore, s2) = read_memory r s1;
          (res, s3) = run s2
      in case res of
           Inl e \<Rightarrow> (Inl e, s3)
         | Inr result \<Rightarrow>
             (let (memoryAfter, s4) = read_memory r s3;
                  (finish, s5) = read_clock r s4
              in (Inr (result, js_sub finish start,
                       calculateMemoryUsage memoryBefore memoryAfter), s5)))"

definition validate :: "'o validator option \<Rightarrow> nat \<Rightarrow> 'o \<Rightarrow> 'o \<Rightarrow> series \<Rightarrow> ('i, 'o) world
    \<Rightarrow> (exn + series) \<times> ('i, 'o) world" where
  \<comment> \<open>\<^verbatim>\<open>if (validator && i === 0) { ... }\<close>; reading \<^verbatim>\<open>.success\<close> of \<^verbatim>\<open>undefined\<close> throws a
      TypeError\<close>
  "validate validator i wasmResult jsResult m s =
     (case validator of
        None \<Rightarrow> (Inr m, s)
      | Some v \<Rightarrow>
          if i = 0 then
            (let s' = s\<lparr>validator_calls := validator_calls s @ [(wasmResult, jsResult)]\<rparr>
             in case v wasmResult jsResult of
                  Inl e \<Rightarrow> (Inl e, s')
                | Inr None \<Rightarrow>
                    (Inl (JsTypeError ''Cannot read properties of undefined (reading success)''), s')
                | Inr (Some validationResult) \<Rightarrow>
                    (Inr (m\<lparr>validationResults :=
                            \<lparr> success = success validationResult,
                              discrepancies =
                                (if success validationResult
                                 then discrepancies (validationResults m)
                                 else discrepancies validationResult) \<rparr>\<rparr>), s'))
          else (Inr m, s))"

definition trial :: "('i, 'o) runner \<Rightarrow> 'i \<Rightarrow> 'o validator option \<Rightarrow> nat \<Rightarrow> series
    \<Rightarrow> ('i, 'o) world \<Rightarrow> (exn + series) \<times> ('i, 'o) world" where
  \<comment> \<open>the body of the loop, for the counter \<open>i\<close>\<close>
  "trial r testData validator i m s0 =
     (case measured (run_wasm r testData) r s0 of
        (Inl e, s1) \<Rightarrow> (Inl e, s1)
      | (Inr (wasmResult, wasmTime, wasmDelta), s1) \<Rightarrow>
          (let m1 = m\<lparr>wasmTimes := wasmTimes m @ [wasmTime],
                      wasmMemory := wasmMemory m @ [wasmDelta]\<rparr>
           in case measured (run_js r testData) r s1 of
                (Inl e, s2) \<Rightarrow> (Inl e, s2)
              | (Inr (jsResult, jsTime, jsDelta), s2) \<Rightarrow>
                  (let m2 = m1\<lparr>jsTimes := jsTimes m1 @ [jsTime],
                               jsMemory := jsMemory m1 @ [jsDelta]\<rparr>
                   in validate validator i wasmResult jsResult m2 s2)))"

function trial_loop :: "('i, 'o) runner \<Rightarrow> 'i \<Rightarrow> 'o validator option \<Rightarrow> nat \<Rightarrow> nat \<Rightarrow> series
    \<Rightarrow> ('i, 'o) world \<Rightarrow> (exn + series) \<times> ('i, 'o) world" where
  \<comment> \<open>\<^verbatim>\<open>for (let i = 0; i < iterations; i++)\<close>, from the counter \<open>i\<close> on\<close>
  "trial_loop r testData validator iterations i m s =
     (if i < iterations then
        (case trial r testData validator i m s of
           (Inl e, s') \<Rightarrow> (Inl e, s')
         | (Inr m', s') \<Rightarrow> trial_loop r testData validator iterations (Suc i) m' s')
      else (Inr m, s))"
  by pat_completeness auto
termination
  by (relation "measure (\<lambda>(r, testData, validator, iterations, i, m, s). iterations - i)") auto

definition megabyte :: jsnum where
  \<comment> \<open>\<^verbatim>\<open>(1024 * 1024)\<close>\<close>
  "megabyte = js_mul (Fin 1024) (Fin 1024)"

definition heapUsedDetails :: "stat_summary \<Rightarrow> heap_details" where
  "heapUsedDetails st =
     \<lparr> heap_min = js_div (to_number (min_stat st)) megabyte,
       heap_max = js_div (to_number (max_stat st)) megabyte,
       heap_mean = js_div (mean st) megabyte,
       heap_median = js_div (to_number (median st)) megabyte \<rparr>"

definition externalDetails :: "memory_delta list \<Rightarrow> external_details" where
  "externalDetails ms =
     \<lparr> external_min = js_div (Math_min (map (\<lambda>m. to_number (delta_field external m)) ms)) megabyte,
       external_max = js_div (Math_max (map (\<lambda>m. to_number (delta_field external m)) ms)) megabyte,
       external_mean =
         js_div (foldl (\<lambda>acc m. js_add acc (to_number (delta_field external m))) (Fin 0) ms)
                (js_mul (js_mul (js_length ms) (Fin 1024)) (Fin 1024)) \<rparr>"

definition summarize :: "string \<Rightarrow> string \<Rightarrow> string \<Rightarrow> series \<Rightarrow> metrics" where
  \<comment> \<open>the statements between the loop and the export hook: statistics, speedup and
      memory details\<close>
  "summarize algorithmName algorithmType size_v m =
     (let wasmStats_v = calculateStats (map Some (wasmTimes m));
          jsStats_v = calculateStats (map Some (jsTimes m));
          wasmMemoryStats_v = calculateStats (map (delta_field heapUsed) (wasmMemory m));
          jsMemoryStats_v = calculateStats (map (delta_field heapUsed) (jsMemory m))
      in \<lparr> wasmTimes = wasmTimes m,
           jsTimes = jsTimes m,
           wasmMemory = wasmMemory m,
           jsMemory = jsMemory m,
           validationResults = validationResults m,
           algorithm = algorithmName,
           type_name = algorithmType,
           size_name = size_v,
           wasmStats = wasmStats_v,
           jsStats = jsStats_v,
           wasmMemoryStats = wasmMemoryStats_v,
           jsMemoryStats = jsMemoryStats_v,
           speedup = js_div (mean jsStats_v) (mean wasmStats_v),
           memoryDetails =
             \<lparr> wasm_detail = \<lparr> heapUsed_detail = heapUsedDetails wasmMemoryStats_v,
                                external_detail = externalDetails (wasmMemory m) \<rparr>,
               js_detail = \<lparr> heapUsed_detail = heapUsedDetails jsMemoryStats_v,
                              external_detail = externalDetails (jsMemory m) \<rparr> \<rparr> \<rparr>)"

definition initial_series :: series where
  "initial_series =
     \<lparr> wasmTimes = [], jsTimes = [], wasmMemory = [], jsMemory = [],
       validationResults = \<lparr> success = True, discrepancies = [] \<rparr> \<rparr>"

definition call_export :: "('i, 'o) runner \<Rightarrow> metrics \<Rightarrow> ('i, 'o) world
    \<Rightarrow> (exn + metrics) \<times> ('i, 'o) world" where
  \<comment> \<open>\<^verbatim>\<open>if (typeof this.exportResults === 'function') { this.exportResults(metrics); }\<close>
      followed by \<^verbatim>\<open>return metrics\<close>: nothing catches what the hook throws\<close>
  "call_export r m s =
     (case exportResults r of
        None \<Rightarrow> (Inr m, s)
      | Some hook \<Rightarrow>
          (let s' = s\<lparr>export_calls := export_calls s @ [m]\<rparr>
           in case hook m of Some e \<Rightarrow> (Inl e, s') | None \<Rightarrow> (Inr m, s')))"

definition runTest :: "('i, 'o) runner \<Rightarrow> string \<Rightarrow> string \<Rightarrow> string \<Rightarrow> 'i \<Rightarrow> nat
    \<Rightarrow> 'o validator option \<Rightarrow> ('i, 'o) world \<Rightarrow> (exn + metrics) \<times> ('i, 'o) world" where
  "runTest r algorithmName algorithmType size_v testData iterations validator s0 =
     (case trial_loop r testData validator iterations 0 initial_series s0 of
        (Inl e, s1) \<Rightarrow> (Inl e, s1)
      | (Inr m, s1) \<Rightarrow> call_export r (summarize algorithmName algorithmType size_v m) s1)"

definition runs_clean :: "('i, 'o) runner \<Rightarrow> 'i \<Rightarrow> 'o validator option \<Rightarrow> nat \<Rightarrow> ('i, 'o) world
    \<Rightarrow> bool" where
  \<comment> \<open>none of the next \<open>n\<close> calls of either implementation throws, and the validator, if
      there is one, returns an outcome on the outputs of the first of them\<close>
  "runs_clean r testData validator n s =
     ((\<forall>k<n. \<not> isl (wasm r (length (wasm_calls s) + k) testData)) \<and>
      (\<forall>k<n. \<not> isl (js r (length (js_calls s) + k) testData)) \<and>
      (case validator of
         None \<Rightarrow> True
       | Some v \<Rightarrow> n = 0 \<or>
           (case v (projr (wasm r (length (wasm_calls s)) testData))
                   (projr (js r (length (js_calls s)) testData)) of
              Inr (Some res) \<Rightarrow> True
            | _ \<Rightarrow> False)))"

section \<open>\<^verbatim>\<open>TestRunnerWithDatabase.runTest\<close>\<close>

definition zero_stats :: stat_summary where
  "zero_stats = \<lparr> min_stat = Some (Fin 0), max_stat = Some (Fin 0), mean = Fin 0,
                  median = Some (Fin 0), stdDev = Fin 0, p95 = Some (Fin 0), p99 = Some (Fin 0) \<rparr>"

definition zero_detail :: memory_detail where
  "zero_detail =
     \<lparr> heapUsed_detail = \<lparr> heap_min = Fin 0, heap_max = Fin 0, heap_mean = Fin 0, heap_median = Fin 0 \<rparr>,
       external_detail = \<lparr> external_min = Fin 0, external_max = Fin 0, external_mean = Fin 0 \<rparr> \<rparr>"

definition errorResult :: "string \<Rightarrow> string \<Rightarrow> string \<Rightarrow> exn \<Rightarrow> metrics" where
  "errorResult algorithmName algorithmType size_v error =
     \<lparr> wasmTimes = [], jsTimes = [], wasmMemory = [], jsMemory = [],
       validationResults = \<lparr> success = False,
                             discrepancies = [TestExecutionFailed (message error)] \<rparr>,
       algorithm = algorithmName,
       type_name = algorithmType,
       size_name = size_v,
       wasmStats = zero_stats,
       jsStats = zero_stats,
       wasmMemoryStats = zero_stats,
       jsMemoryStats = zero_stats,
       speedup = Fin 0,
       memoryDetails = \<lparr> wasm_detail = zero_detail, js_detail = zero_detail \<rparr> \<rparr>"

definition runTest_db :: "('i, 'o) runner \<Rightarrow> string \<Rightarrow> string \<Rightarrow> string \<Rightarrow> 'i \<Rightarrow> nat
    \<Rightarrow> 'o validator option \<Rightarrow> ('i, 'o) world \<Rightarrow> metrics option \<times> ('i, 'o) world" where
  \<comment> \<open>the override: \<^verbatim>\<open>super.runTest\<close> in a \<^verbatim>\<open>try\<close>, whose \<^verbatim>\<open>catch\<close> returns the error result;
      \<open>None\<close> is the \<^verbatim>\<open>null\<close> returned for a NaN speedup\<close>
  "runTest_db r algorithmName algorithmType size_v testData iterations validator s0 =
     (case runTest r algorithmName algorithmType size_v testData iterations validator s0 of
        (Inl error, s1) \<Rightarrow> (Some (errorResult algorithmName algorithmType size_v error), s1)
      | (Inr m, s1) \<Rightarrow>
          if js_isNaN (speedup m) then (None, s1)
          else
            (let s2 = s1\<lparr>allResults := allResults s1 @ [m]\<rparr> in
             if saveToJson r then
               (case exportResults r of
                  None \<Rightarrow>
                    (Some (errorResult algorithmName algorithmType size_v
                             (JsTypeError ''this.exportResults is not a function'')), s2)
                | Some hook \<Rightarrow>
                    (let s3 = s2\<lparr>export_calls := export_calls s2 @ [m]\<rparr>
                     in case hook m of
                          Some error \<Rightarrow>
                            (Some (errorResult algorithmName algorithmType size_v error), s3)
                        | None \<Rightarrow> (Some m, s3)))
             else (Some m, s2)))"

section \<open>Test doubles\<close>

text \<open>
  The scenario of the specification: the native implementation returns \<open>input * 2\<close>
  after 5 ms, the managed one after 15 ms.  The clock is read four times per trial.
\<close>

definition demo_clock :: "nat \<Rightarrow> jsnum" where
  "demo_clock k = Fin (of_nat (20 * (k div 4) +
     (if k mod 4 = 0 then 0 else if k mod 4 = 1 then 5 else if k mod 4 = 2 then 5 else 20)))"

definition demo_memory :: "nat \<Rightarrow> snapshot" where
  "demo_memory k = NodeMemory \<lparr> heapUsed = Fin (of_nat (1000 + 8 * k)), heapTotal = Fin 4096,
                                 external = Fin (of_nat (100 + k)), rss = Fin 8192 \<rparr>"

definition demo_runner :: "(int, int) runner" where
  "demo_runner = \<lparr> wasm = (\<lambda>k x. Inr (x * 2)), js = (\<lambda>k x. Inr (x * 2)),
                   performance_now = demo_clock, measureMemory = demo_memory,
                   exportResults = Some (\<lambda>m. None), saveToJson = True \<rparr>"

definition demo_validator :: "int validator" where
  "demo_validator w j = Inr (Some \<lparr> success = (w = j),
                                    discrepancies = (if w = j then [] else [Message ''mismatch'']) \<rparr>)"

definition undefined_validator :: "int validator" where
  "undefined_validator w j = Inr None"

definition throwing_validator :: "int validator" where
  "throwing_validator w j = Inl (JsError ''validator failed'')"

definition failing_export_runner :: "(int, int) runner" where
  "failing_export_runner = demo_runner\<lparr>exportResults := Some (\<lambda>m. Some (JsError ''database unreachable''))\<rparr>"



definition world0 :: "(int, int) world" where
  "world0 = \<lparr> clock_reads = 0, memory_reads = 0, wasm_calls = [], js_calls = [],
              validator_calls = [], export_calls = [], allResults = [] \<rparr>"

section \<open>The trial loop: what one pass and the whole loop do to the world\<close>

declare trial_loop.simps [simp del]
declare isqrt.simps [simp del]

lemma measured_run_wasm:
  "measured (run_wasm r td) r s = (res, s') \<Longrightarrow>
     wasm_calls s' = wasm_calls s @ [td] \<and> js_calls s' = js_calls s \<and>
     validator_calls s' = validator_calls s \<and> export_calls s' = export_calls s \<and>
     allResults s' = allResults s \<and>
     (case res of Inl e \<Rightarrow> wasm r (length (wasm_calls s)) td = Inl e
               | Inr (out, t, d) \<Rightarrow> wasm r (length (wasm_calls s)) td = Inr out)"
  by (auto simp: measured_def run_wasm_def read_clock_def read_memory_def Let_def
           split: sum.splits prod.splits)

lemma measured_run_js:
  "measured (run_js r td) r s = (res, s') \<Longrightarrow>
     js_calls s' = js_calls s @ [td] \<and> wasm_calls s' = wasm_calls s \<and>
     validator_calls s' = validator_calls s \<and> export_calls s' = export_calls s \<and>
     allResults s' = allResults s \<and>
     (case res of Inl e \<Rightarrow> js r (length (js_calls s)) td = Inl e
               | Inr (out, t, d) \<Rightarrow> js r (length (js_calls s)) td = Inr out)"
  by (auto simp: measured_def run_js_def read_clock_def read_memory_def Let_def
           split: sum.splits prod.splits)

lemma validate_Inr:
  "validate v i w j m s = (Inr m', s') \<Longrightarrow>
     wasm_calls s' = wasm_calls s \<and> js_calls s' = js_calls s \<and>
     export_calls s' = export_calls s \<and> allResults s' = allResults s \<and>
     wasmTimes m' = wasmTimes m \<and> jsTimes m' = jsTimes m \<and>
     wasmMemory m' = wasmMemory m \<and> jsMemory m' = jsMemory m \<and>
     validator_calls s' = validator_calls s @ (if v \<noteq> None \<and> i = 0 then [(w, j)] else [])"
  by (auto simp: validate_def Let_def split: option.splits sum.splits if_splits)

lemma trial_Inr:
  assumes "trial r td v i m s = (Inr m', s')"
  shows "\<exists>w j. wasm r (length (wasm_calls s)) td = Inr w \<and> js r (length (js_calls s)) td = Inr j \<and>
     wasm_calls s' = wasm_calls s @ [td] \<and> js_calls s' = js_calls s @ [td] \<and>
     export_calls s' = export_calls s \<and> allResults s' = allResults s \<and>
     length (wasmTimes m') = Suc (length (wasmTimes m)) \<and>
     length (jsTimes m') = Suc (length (jsTimes m)) \<and>
     length (wasmMemory m') = Suc (length (wasmMemory m)) \<and>
     length (jsMemory m') = Suc (length (jsMemory m)) \<and>
     validator_calls s' = validator_calls s @ (if v \<noteq> None \<and> i = 0 then [(w, j)] else [])"
proof -
  obtain rw s1 where mw: "measured (run_wasm r td) r s = (rw, s1)" by (cases "measured (run_wasm r td) r s")
  from assms mw obtain w tw dw where rw: "rw = Inr (w, tw, dw)"
    by (cases rw) (auto simp: trial_def)
  obtain rj s2 where mj: "measured (run_js r td) r s1 = (rj, s2)" by (cases "measured (run_js r td) r s1")
  from assms mw rw mj obtain j tj dj where rj: "rj = Inr (j, tj, dj)"
    by (cases rj) (auto simp: trial_def Let_def)
  from assms mw rw mj rj have val: "validate v i w j
      (m\<lparr>wasmTimes := wasmTimes m @ [tw], wasmMemory := wasmMemory m @ [dw],
         jsTimes := jsTimes m @ [tj], jsMemory := jsMemory m @ [dj]\<rparr>) s2 = (Inr m', s')"
    by (simp add: trial_def Let_def)
  from measured_run_wasm[OF mw] measured_run_js[OF mj] validate_Inr[OF val] rw rj
  show ?thesis by (intro exI[of _ w] exI[of _ j]) simp
qed


lemma trial_loop_Inr:
  "trial_loop r td v n i m s = (Inr m', s') \<Longrightarrow>
     wasm_calls s' = wasm_calls s @ replicate (n - i) td \<and>
     js_calls s' = js_calls s @ replicate (n - i) td \<and>
     export_calls s' = export_calls s \<and> allResults s' = allResults s \<and>
     length (wasmTimes m') = length (wasmTimes m) + (n - i) \<and>
     length (jsTimes m') = length (jsTimes m) + (n - i) \<and>
     length (wasmMemory m') = length (wasmMemory m) + (n - i) \<and>
     length (jsMemory m') = length (jsMemory m) + (n - i) \<and>
     validator_calls s' = validator_calls s @
       (if v \<noteq> None \<and> i = 0 \<and> 0 < n
        then [(projr (wasm r (length (wasm_calls s)) td), projr (js r (length (js_calls s)) td))]
        else [])"
proof (induction r td v n i m s rule: trial_loop.induct)
  case (1 r td v n i m s)
  show ?case
  proof (cases "i < n")
    case False
    with "1.prems" show ?thesis by (auto simp: trial_loop.simps)
  next
    case True
    obtain res s1 where t: "trial r td v i m s = (res, s1)" by (cases "trial r td v i m s")
    with True "1.prems" obtain m1 where res: "res = Inr m1"
      by (cases res) (auto simp: trial_loop.simps)
    with True t "1.prems" have loop: "trial_loop r td v n (Suc i) m1 s1 = (Inr m', s')"
      by (simp add: trial_loop.simps)
    from t res have t': "trial r td v i m s = (Inr m1, s1)" by simp
    from trial_Inr[OF t'] obtain w j where
      wj: "wasm r (length (wasm_calls s)) td = Inr w" "js r (length (js_calls s)) td = Inr j"
      and step: "wasm_calls s1 = wasm_calls s @ [td]" "js_calls s1 = js_calls s @ [td]"
        "export_calls s1 = export_calls s" "allResults s1 = allResults s"
        "length (wasmTimes m1) = Suc (length (wasmTimes m))"
        "length (jsTimes m1) = Suc (length (jsTimes m))"
        "length (wasmMemory m1) = Suc (length (wasmMemory m))"
        "length (jsMemory m1) = Suc (length (jsMemory m))"
        "validator_calls s1 = validator_calls s @ (if v \<noteq> None \<and> i = 0 then [(w, j)] else [])"
      by blast
    have rep: "replicate (n - i) td = td # replicate (n - Suc i) td"
      using True by (metis Suc_diff_Suc replicate_Suc)
    have len: "n - i = Suc (n - Suc i)" using True by simp
    from "1.IH"[OF True t[symmetric] res loop] step wj rep len True
    show ?thesis by simp
  qed
qed

lemma measured_total_wasm:
  "wasm r (length (wasm_calls s)) td = Inr w \<Longrightarrow>
     \<exists>t d s'. measured (run_wasm r td) r s = (Inr (w, t, d), s')"
  by (simp add: measured_def run_wasm_def read_clock_def read_memory_def Let_def)

lemma measured_total_js:
  "js r (length (js_calls s)) td = Inr j \<Longrightarrow>
     \<exists>t d s'. measured (run_js r td) r s = (Inr (j, t, d), s')"
  by (simp add: measured_def run_js_def read_clock_def read_memory_def Let_def)

lemma validate_total:
  "(case v of None \<Rightarrow> True | Some f \<Rightarrow> i \<noteq> 0 \<or> (\<exists>res. f w j = Inr (Some res))) \<Longrightarrow>
     \<exists>m' s'. validate v i w j m s = (Inr m', s')"
  by (auto simp: validate_def Let_def split: option.splits)

lemma trial_total:
  assumes "wasm r (length (wasm_calls s)) td = Inr w" "js r (length (js_calls s)) td = Inr j"
    "case v of None \<Rightarrow> True | Some f \<Rightarrow> i \<noteq> 0 \<or> (\<exists>res. f w j = Inr (Some res))"
  shows "\<exists>m' s'. trial r td v i m s = (Inr m', s')"
proof -
  from measured_total_wasm[OF assms(1)] obtain tw dw s1 where
    mw: "measured (run_wasm r td) r s = (Inr (w, tw, dw), s1)" by blast
  from measured_run_wasm[OF mw] have "js_calls s1 = js_calls s" by simp
  with assms(2) have "js r (length (js_calls s1)) td = Inr j" by simp
  from measured_total_js[OF this] obtain tj dj s2 where
    mj: "measured (run_js r td) r s1 = (Inr (j, tj, dj), s2)" by blast
  from validate_total[OF assms(3)] mw mj show ?thesis
    by (simp add: trial_def Let_def)
qed

lemma validate_fails:
  "f w j = Inl x \<or> (f w j = Inr None \<and>
       x = JsTypeError ''Cannot read properties of undefined (reading success)'') \<Longrightarrow>
   validate (Some f) 0 w j m s = (Inl x, s\<lparr>validator_calls := validator_calls s @ [(w, j)]\<rparr>)"
  by (auto simp: validate_def Let_def)

lemma trial_fails_validator:
  assumes "wasm r (length (wasm_calls s)) td = Inr w" "js r (length (js_calls s)) td = Inr j"
    "f w j = Inl x \<or> (f w j = Inr None \<and>
       x = JsTypeError ''Cannot read properties of undefined (reading success)'')"
  shows "\<exists>s'. trial r td (Some f) 0 m s = (Inl x, s') \<and> wasm_calls s' = wasm_calls s @ [td] \<and>
     js_calls s' = js_calls s @ [td] \<and> export_calls s' = export_calls s \<and>
     allResults s' = allResults s \<and> validator_calls s' = validator_calls s @ [(w, j)]"
proof -
  from measured_total_wasm[OF assms(1)] obtain tw dw s1 where
    mw: "measured (run_wasm r td) r s = (Inr (w, tw, dw), s1)" by blast
  note f1 = measured_run_wasm[OF mw]
  with assms(2) have "js r (length (js_calls s1)) td = Inr j" by simp
  from measured_total_js[OF this] obtain tj dj s2 where
    mj: "measured (run_js r td) r s1 = (Inr (j, tj, dj), s2)" by blast
  note f2 = measured_run_js[OF mj]
  from mw mj f1 f2 show ?thesis
    by (simp add: trial_def Let_def validate_fails[of f w j x, OF assms(3)])
qed

lemma trial_loop_total:
  "(\<forall>k<n - i. \<not> isl (wasm r (length (wasm_calls s) + k) td)) \<Longrightarrow>
   (\<forall>k<n - i. \<not> isl (js r (length (js_calls s) + k) td)) \<Longrightarrow>
   (case v of None \<Rightarrow> True
    | Some f \<Rightarrow> i \<noteq> 0 \<or> n = 0 \<or>
        (\<exists>res. f (projr (wasm r (length (wasm_calls s)) td))
                  (projr (js r (length (js_calls s)) td)) = Inr (Some res))) \<Longrightarrow>
   \<exists>m' s'. trial_loop r td v n i m s = (Inr m', s')"
proof (induction r td v n i m s rule: trial_loop.induct)
  case (1 r td v n i m s)
  show ?case
  proof (cases "i < n")
    case False
    then show ?thesis by (simp add: trial_loop.simps)
  next
    case True
    then have pos: "0 < n - i" by simp
    from "1.prems"(1) pos obtain w where w: "wasm r (length (wasm_calls s)) td = Inr w"
      by (cases "wasm r (length (wasm_calls s)) td") force+
    from "1.prems"(2) pos obtain j where j: "js r (length (js_calls s)) td = Inr j"
      by (cases "js r (length (js_calls s)) td") force+
    from "1.prems"(3) True w j
    have "case v of None \<Rightarrow> True | Some f \<Rightarrow> i \<noteq> 0 \<or> (\<exists>res. f w j = Inr (Some res))"
      by (auto split: option.splits)
    from trial_total[OF w j this] obtain m1 s1 where
      t: "trial r td v i m s = (Inr m1, s1)" by blast
    from trial_Inr[OF t] have step: "wasm_calls s1 = wasm_calls s @ [td]"
      "js_calls s1 = js_calls s @ [td]" by auto
    have a: "\<forall>k<n - Suc i. \<not> isl (wasm r (length (wasm_calls s1) + k) td)"
    proof (intro allI impI)
      fix k assume "k < n - Suc i"
      then have "Suc k < n - i" by simp
      with "1.prems"(1) have "\<not> isl (wasm r (length (wasm_calls s) + Suc k) td)" by blast
      with step show "\<not> isl (wasm r (length (wasm_calls s1) + k) td)" by simp
    qed
    have b: "\<forall>k<n - Suc i. \<not> isl (js r (length (js_calls s1) + k) td)"
    proof (intro allI impI)
      fix k assume "k < n - Suc i"
      then have "Suc k < n - i" by simp
      with "1.prems"(2) have "\<not> isl (js r (length (js_calls s) + Suc k) td)" by blast
      with step show "\<not> isl (js r (length (js_calls s1) + k) td)" by simp
    qed
    have c: "case v of None \<Rightarrow> True
      | Some f \<Rightarrow> Suc i \<noteq> 0 \<or> n = 0 \<or>
          (\<exists>res. f (projr (wasm r (length (wasm_calls s1)) td))
                    (projr (js r (length (js_calls s1)) td)) = Inr (Some res))"
      by (simp split: option.splits)
    from "1.IH"[OF True t[symmetric] refl a b c] obtain m' s' where
      "trial_loop r td v n (Suc i) m1 s1 = (Inr m', s')" by blast
    with True t show ?thesis by (simp add: trial_loop.simps)
  qed
qed

lemma runs_clean_loop:
  assumes "runs_clean r td v n s"
  shows "\<exists>m' s'. trial_loop r td v n 0 m s = (Inr m', s')"
proof (rule trial_loop_total)
  from assms show "\<forall>k<n - 0. \<not> isl (wasm r (length (wasm_calls s) + k) td)"
    by (simp add: runs_clean_def)
  from assms show "\<forall>k<n - 0. \<not> isl (js r (length (js_calls s) + k) td)"
    by (simp add: runs_clean_def)
  from assms show "case v of None \<Rightarrow> True
    | Some f \<Rightarrow> (0::nat) \<noteq> 0 \<or> n = 0 \<or>
        (\<exists>res. f (projr (wasm r (length (wasm_calls s)) td))
                  (projr (js r (length (js_calls s)) td)) = Inr (Some res))"
    by (auto simp: runs_clean_def split: option.splits sum.splits)
qed

lemma call_export_frame:
  "call_export r m s = (res, s') \<Longrightarrow>
     wasm_calls s' = wasm_calls s \<and> js_calls s' = js_calls s \<and>
     validator_calls s' = validator_calls s \<and> allResults s' = allResults s"
  by (auto simp: call_export_def Let_def split: option.splits)

lemma call_export_Inr:
  "call_export r m s = (Inr m', s') \<Longrightarrow> m' = m"
  by (auto simp: call_export_def Let_def split: option.splits)

lemma call_export_quiet:
  assumes "\<forall>hook m. exportResults r = Some hook \<longrightarrow> hook m = None"
  shows "\<exists>s'. call_export r m s = (Inr m, s')"
proof (cases "exportResults r")
  case None
  then show ?thesis by (simp add: call_export_def)
next
  case (Some hook)
  with assms have "hook m = None" by blast
  with Some show ?thesis by (simp add: call_export_def Let_def)
qed

lemma summarize_series [simp]:
  "wasmTimes (summarize a t z m) = wasmTimes m"
  "jsTimes (summarize a t z m) = jsTimes m"
  "wasmMemory (summarize a t z m) = wasmMemory m"
  "jsMemory (summarize a t z m) = jsMemory m"
  "validationResults (summarize a t z m) = validationResults m"
  by (simp_all add: summarize_def Let_def)

lemma runTest_Inr:
  assumes "runTest r a t z td n v s = (Inr m, s')"
  shows "\<exists>m0 s1. trial_loop r td v n 0 initial_series s = (Inr m0, s1) \<and>
     m = summarize a t z m0 \<and> call_export r m s1 = (Inr m, s')"
proof -
  obtain res s1 where l: "trial_loop r td v n 0 initial_series s = (res, s1)"
    by (cases "trial_loop r td v n 0 initial_series s")
  with assms obtain m0 where res: "res = Inr m0"
    by (cases res) (auto simp: runTest_def)
  with assms l have c: "call_export r (summarize a t z m0) s1 = (Inr m, s')"
    by (simp add: runTest_def)
  from call_export_Inr[OF c] have "m = summarize a t z m0" .
  with l res c show ?thesis by simp
qed

section \<open>Trial counts\<close>

text \<open>
  C1.  For a trial count \<open>n \<ge> 1\<close>: whenever \<open>runTest\<close> returns its metrics, the native
  and the managed implementation have each been called exactly \<open>n\<close> times (with the test
  data), both timing series have exactly \<open>n\<close> entries, and a supplied validator has been
  called exactly once, on the outputs of the first trial.  And \<open>runTest\<close> does return
  when no implementation call throws, the validator returns an outcome and the export
  hook does not throw.
\<close>

theorem runTest_trial_counts:
  assumes "1 \<le> n"
  shows "(\<forall>m s'. runTest r a t z td n v s = (Inr m, s') \<longrightarrow>
            wasm_calls s' = wasm_calls s @ replicate n td \<and>
            js_calls s' = js_calls s @ replicate n td \<and>
            length (wasmTimes m) = n \<and> length (jsTimes m) = n \<and>
            validator_calls s' = validator_calls s @
              (case v of None \<Rightarrow> []
               | Some f \<Rightarrow> [(projr (wasm r (length (wasm_calls s)) td),
                             projr (js r (length (js_calls s)) td))])) \<and>
         (runs_clean r td v n s \<and> (\<forall>hook m. exportResults r = Some hook \<longrightarrow> hook m = None) \<longrightarrow>
            (\<exists>m s'. runTest r a t z td n v s = (Inr m, s')))"
proof (intro conjI allI impI)
  fix m s'
  assume run: "runTest r a t z td n v s = (Inr m, s')"
  from runTest_Inr[OF run] obtain m0 s1 where
    l: "trial_loop r td v n 0 initial_series s = (Inr m0, s1)" and
    m: "m = summarize a t z m0" and c: "call_export r m s1 = (Inr m, s')" by blast
  note loop = trial_loop_Inr[OF l]
  note frame = call_export_frame[OF c]
  have init: "wasmTimes initial_series = []" "jsTimes initial_series = []"
    by (simp_all add: initial_series_def)
  from loop frame show "wasm_calls s' = wasm_calls s @ replicate n td" by simp
  from loop frame show "js_calls s' = js_calls s @ replicate n td" by simp
  from loop init show "length (wasmTimes m) = n" unfolding m by simp
  from loop init show "length (jsTimes m) = n" unfolding m by simp
  from loop frame assms show "validator_calls s' = validator_calls s @
      (case v of None \<Rightarrow> []
       | Some f \<Rightarrow> [(projr (wasm r (length (wasm_calls s)) td),
                     projr (js r (length (js_calls s)) td))])"
    by (simp split: option.splits)
next
  assume h: "runs_clean r td v n s \<and> (\<forall>hook m. exportResults r = Some hook \<longrightarrow> hook m = None)"
  from h have clean: "runs_clean r td v n s" by (rule conjunct1)
  from h have quiet: "\<forall>hook m. exportResults r = Some hook \<longrightarrow> hook m = None"
    by (rule conjunct2)
  from runs_clean_loop[OF clean] obtain m0 s1 where
    l: "trial_loop r td v n 0 initial_series s = (Inr m0, s1)" by blast
  from call_export_quiet[OF quiet] obtain s' where
    "call_export r (summarize a t z m0) s1 = (Inr (summarize a t z m0), s')" by blast
  with l have "runTest r a t z td n v s = (Inr (summarize a t z m0), s')"
    by (simp add: runTest_def)
  then show "\<exists>m s'. runTest r a t z td n v s = (Inr m, s')"
    by blast
qed

theorem runTest_trial_counts_witness:
  "\<exists>m s'. runTest demo_runner ''demo'' ''math'' ''small'' 4 3 (Some demo_validator) world0 = (Inr m, s') \<and>
     wasm_calls s' = [4, 4, 4] \<and> js_calls s' = [4, 4, 4] \<and>
     length (wasmTimes m) = 3 \<and> length (jsTimes m) = 3 \<and>
     validator_calls s' = [(8, 8)]"
proof -
  have n: "(1::nat) \<le> 3" by simp
  note inst = runTest_trial_counts[OF n, of demo_runner "''demo''" "''math''" "''small''" 4
      "Some demo_validator" world0]
  have clean: "runs_clean demo_runner 4 (Some demo_validator) 3 world0"
    by (simp add: runs_clean_def demo_runner_def demo_validator_def world0_def)
  have quiet: "\<forall>hook m. exportResults demo_runner = Some hook \<longrightarrow> hook m = None"
    by (simp add: demo_runner_def)
  from conjunct2[OF inst, THEN mp, OF conjI, OF clean quiet] obtain m s' where
    run: "runTest demo_runner ''demo'' ''math'' ''small'' 4 3 (Some demo_validator) world0 = (Inr m, s')"
    by (elim exE)
  from conjunct1[OF inst, rule_format, OF run]
  have "wasm_calls s' = [4, 4, 4] \<and> js_calls s' = [4, 4, 4] \<and>
      length (wasmTimes m) = 3 \<and> length (jsTimes m) = 3 \<and> validator_calls s' = [(8, 8)]"
    by (simp add: world0_def demo_runner_def numeral_3_eq_3)
  with run show ?thesis by (intro exI conjI) (erule conjunct1 | simp)+
qed

section \<open>Zero trials\<close>

lemma js_index_Nil [simp]: "js_index [] k = None"
  by (cases k) (simp_all add: js_index_def)

lemma calculateStats_Nil:
  "calculateStats [] = \<lparr> min_stat = None, max_stat = None, mean = NaN, median = None,
      stdDev = NaN, p95 = None, p99 = None \<rparr>"
  by (simp add: calculateStats_def Let_def js_sort_def js_length_def js_signed_inf_def js_sign_def)

lemma summarize_initial:
  "wasmStats (summarize a t z initial_series) = calculateStats []"
  "jsStats (summarize a t z initial_series) = calculateStats []"
  "speedup (summarize a t z initial_series) = NaN"
  by (simp_all add: summarize_def Let_def initial_series_def calculateStats_Nil)

lemma runTest_zero: "runTest r a t z td 0 v s = call_export r (summarize a t z initial_series) s"
  by (simp add: runTest_def trial_loop.simps)

lemma runTest_db_zero:
  assumes "\<forall>hook m. exportResults r = Some hook \<longrightarrow> hook m = None"
  shows "fst (runTest r a t z td 0 v s) = Inr (summarize a t z initial_series)"
    and "fst (runTest_db r a t z td 0 v s) = None"
proof -
  from call_export_quiet[OF assms] obtain s' where
    c: "call_export r (summarize a t z initial_series) s = (Inr (summarize a t z initial_series), s')"
    by blast
  then show "fst (runTest r a t z td 0 v s) = Inr (summarize a t z initial_series)"
    by (simp add: runTest_zero)
  from c show "fst (runTest_db r a t z td 0 v s) = None"
    by (simp add: runTest_db_def runTest_zero summarize_initial js_isNaN_def)
qed

lemma demo_quiet: "\<forall>hook m. exportResults demo_runner = Some hook \<longrightarrow> hook m = None"
  by (simp add: demo_runner_def)

text \<open>
  C6 (as the code has it).  A trial count of 0 is not rejected.  \<open>runTest\<close> runs no
  trial, calls no implementation and no validator, summarises the empty series (every
  mean is NaN, minimum, maximum and median are \<^verbatim>\<open>undefined\<close>, the speedup is NaN), calls the
  export hook and returns the metrics; \<open>TestRunnerWithDatabase.runTest\<close> then returns
  \<^verbatim>\<open>null\<close> for the NaN speedup.
\<close>

theorem runTest_zero_trials:
  "((\<forall>hook m. exportResults r = Some hook \<longrightarrow> hook m = None) \<longrightarrow>
      fst (runTest r a t z td 0 v s) = Inr (summarize a t z initial_series) \<and>
      fst (runTest_db r a t z td 0 v s) = None) \<and>
   runTest r a t z td 0 v s = call_export r (summarize a t z initial_series) s \<and>
   wasm_calls (snd (runTest r a t z td 0 v s)) = wasm_calls s \<and>
   js_calls (snd (runTest r a t z td 0 v s)) = js_calls s \<and>
   validator_calls (snd (runTest r a t z td 0 v s)) = validator_calls s \<and>
   wasmTimes (summarize a t z initial_series) = [] \<and>
   jsTimes (summarize a t z initial_series) = [] \<and>
   wasmStats (summarize a t z initial_series) = calculateStats [] \<and>
   jsStats (summarize a t z initial_series) = calculateStats [] \<and>
   mean (calculateStats []) = NaN \<and> min_stat (calculateStats []) = None \<and>
   max_stat (calculateStats []) = None \<and> median (calculateStats []) = None \<and>
   speedup (summarize a t z initial_series) = NaN"
proof -
  obtain res s' where c: "call_export r (summarize a t z initial_series) s = (res, s')"
    by (cases "call_export r (summarize a t z initial_series) s")
  note frame = call_export_frame[OF c]
  from c frame have "wasm_calls (snd (runTest r a t z td 0 v s)) = wasm_calls s"
    "js_calls (snd (runTest r a t z td 0 v s)) = js_calls s"
    "validator_calls (snd (runTest r a t z td 0 v s)) = validator_calls s"
    by (simp_all add: runTest_zero)
  moreover have "wasmTimes (summarize a t z initial_series) = []"
    "jsTimes (summarize a t z initial_series) = []"
    by (simp_all add: initial_series_def)
  ultimately show ?thesis
    using runTest_db_zero[of r a t z td v s]
    by (simp add: runTest_zero summarize_initial calculateStats_Nil)
qed

theorem runTest_zero_trials_witness:
  "fst (runTest demo_runner ''demo'' ''math'' ''small'' 4 0 (Some demo_validator) world0)
     = Inr (summarize ''demo'' ''math'' ''small'' initial_series) \<and>
   fst (runTest_db demo_runner ''demo'' ''math'' ''small'' 4 0 (Some demo_validator) world0) = None"
  by (rule conjunct1[OF runTest_zero_trials, THEN mp, OF demo_quiet])

theorem runTest_zero_trials_counterexample:
  "\<exists>m. fst (runTest demo_runner ''demo'' ''math'' ''small'' 4 0 None world0) = Inr m \<and>
     wasmTimes m = [] \<and> jsTimes m = [] \<and> speedup m = NaN"
proof -
  have "fst (runTest demo_runner ''demo'' ''math'' ''small'' 4 0 None world0)
      = Inr (summarize ''demo'' ''math'' ''small'' initial_series)"
    by (rule runTest_db_zero(1)[OF demo_quiet])
  moreover have "wasmTimes (summarize ''demo'' ''math'' ''small'' initial_series) = []"
    "jsTimes (summarize ''demo'' ''math'' ''small'' initial_series) = []"
    by (simp_all add: initial_series_def)
  ultimately show ?thesis
    by (intro exI[of _ "summarize ''demo'' ''math'' ''small'' initial_series"])
       (simp add: summarize_initial)
qed

section \<open>A throwing export hook\<close>

lemma runTest_export_throws:
  assumes clean: "runs_clean r td v n s" and hook: "exportResults r = Some hook"
    and throws: "\<forall>m. hook m = Some e"
  shows "\<exists>m0 s1. trial_loop r td v n 0 initial_series s = (Inr m0, s1) \<and>
     runTest r a t z td n v s
       = (Inl e, s1\<lparr>export_calls := export_calls s1 @ [summarize a t z m0]\<rparr>)"
proof -
  from runs_clean_loop[OF clean] obtain m0 s1 where
    l: "trial_loop r td v n 0 initial_series s = (Inr m0, s1)" by blast
  from throws have "hook (summarize a t z m0) = Some e" by (rule spec)
  with hook have "call_export r (summarize a t z m0) s1
      = (Inl e, s1\<lparr>export_calls := export_calls s1 @ [summarize a t z m0]\<rparr>)"
    by (simp add: call_export_def Let_def)
  with l show ?thesis by (simp add: runTest_def)
qed

lemma runTest_export_throws_facts:
  assumes clean: "runs_clean r td v n s" and hook: "exportResults r = Some hook"
    and throws: "\<forall>m. hook m = Some e"
  shows "fst (runTest r a t z td n v s) = Inl e"
    and "\<exists>m. export_calls (snd (runTest r a t z td n v s)) = export_calls s @ [m] \<and>
           length (wasmTimes m) = n \<and> length (jsTimes m) = n"
    and "fst (runTest_db r a t z td n v s) = Some (errorResult a t z e)"
    and "allResults (snd (runTest_db r a t z td n v s)) = allResults s"
proof -
  from runTest_export_throws[OF assms, of a t z] obtain m0 s1 where
    l: "trial_loop r td v n 0 initial_series s = (Inr m0, s1)" and
    run: "runTest r a t z td n v s
       = (Inl e, s1\<lparr>export_calls := export_calls s1 @ [summarize a t z m0]\<rparr>)" by blast
  note loop = trial_loop_Inr[OF l]
  have init: "wasmTimes initial_series = []" "jsTimes initial_series = []"
    by (simp_all add: initial_series_def)
  from run show "fst (runTest r a t z td n v s) = Inl e" by simp
  from loop init have
    "export_calls (snd (runTest r a t z td n v s)) = export_calls s @ [summarize a t z m0] \<and>
     length (wasmTimes (summarize a t z m0)) = n \<and> length (jsTimes (summarize a t z m0)) = n"
    unfolding run by simp
  then show "\<exists>m. export_calls (snd (runTest r a t z td n v s)) = export_calls s @ [m] \<and>
           length (wasmTimes m) = n \<and> length (jsTimes m) = n" by (rule exI)
  from run show "fst (runTest_db r a t z td n v s) = Some (errorResult a t z e)"
    by (simp add: runTest_db_def)
  from run loop show "allResults (snd (runTest_db r a t z td n v s)) = allResults s"
    by (simp add: runTest_db_def)
qed

lemma demo_clean: "runs_clean demo_runner x (Some demo_validator) n s"
  by (simp add: runs_clean_def demo_runner_def demo_validator_def)

lemma failing_export_clean:
  "runs_clean failing_export_runner x None n s"
  "runs_clean failing_export_runner x (Some demo_validator) n s"
  by (simp_all add: runs_clean_def failing_export_runner_def demo_runner_def demo_validator_def)

text \<open>
  C7 (as the code has it).  Nothing in \<open>runTest\<close> catches what the export hook throws:
  when the trial loop has completed and the hook throws, \<open>runTest\<close> ends with that
  exception and returns no metrics, although the hook was handed the fully built metrics
  (both timing series of length \<open>n\<close>).  \<open>TestRunnerWithDatabase.runTest\<close> catches the
  exception and returns its zeroed error result, not the metrics, and stores nothing in
  \<open>allResults\<close>.
\<close>

theorem runTest_export_failure:
  assumes "runs_clean r td v n s" and "exportResults r = Some hook" and "\<forall>m. hook m = Some e"
  shows "fst (runTest r a t z td n v s) = Inl e \<and>
     (\<exists>m. export_calls (snd (runTest r a t z td n v s)) = export_calls s @ [m] \<and>
          length (wasmTimes m) = n \<and> length (jsTimes m) = n) \<and>
     fst (runTest_db r a t z td n v s) = Some (errorResult a t z e) \<and>
     wasmTimes (errorResult a t z e) = [] \<and> jsTimes (errorResult a t z e) = [] \<and>
     speedup (errorResult a t z e) = Fin 0 \<and>
     allResults (snd (runTest_db r a t z td n v s)) = allResults s"
  using runTest_export_throws_facts[OF assms, of a t z]
  by (simp add: errorResult_def)

theorem runTest_export_failure_witness:
  "fst (runTest failing_export_runner ''demo'' ''math'' ''small'' 4 3 None world0)
     = Inl (JsError ''database unreachable'') \<and>
   fst (runTest_db failing_export_runner ''demo'' ''math'' ''small'' 4 3 None world0)
     = Some (errorResult ''demo'' ''math'' ''small'' (JsError ''database unreachable''))"
proof -
  have hook: "exportResults failing_export_runner = Some (\<lambda>m. Some (JsError ''database unreachable''))"
    by (simp add: failing_export_runner_def)
  have throws: "\<forall>m. (\<lambda>m::metrics. Some (JsError ''database unreachable'')) m
      = Some (JsError ''database unreachable'')" by simp
  note inst = runTest_export_failure[where a = "''demo''" and t = "''math''" and z = "''small''",
      OF failing_export_clean(1)[of 4 3 world0] hook throws]
  from inst have a: "fst (runTest failing_export_runner ''demo'' ''math'' ''small'' 4 3 None world0)
     = Inl (JsError ''database unreachable'')" by (rule conjunct1)
  from inst have b: "fst (runTest_db failing_export_runner ''demo'' ''math'' ''small'' 4 3 None world0)
     = Some (errorResult ''demo'' ''math'' ''small'' (JsError ''database unreachable''))"
    by (rule conjunct1[OF conjunct2[OF conjunct2]])
  from a b show ?thesis by (rule conjI)
qed

theorem runTest_export_failure_counterexample:
  "fst (runTest failing_export_runner ''demo'' ''math'' ''small'' 4 2 (Some demo_validator) world0)
     = Inl (JsError ''database unreachable'')"
proof -
  have hook: "exportResults failing_export_runner = Some (\<lambda>m. Some (JsError ''database unreachable''))"
    by (simp add: failing_export_runner_def)
  have throws: "\<forall>m. (\<lambda>m::metrics. Some (JsError ''database unreachable'')) m
      = Some (JsError ''database unreachable'')" by simp
  show ?thesis
    by (rule runTest_export_throws_facts(1)[OF failing_export_clean(2)[of 4 2 world0] hook throws])
qed

section \<open>A validator that returns nothing or throws\<close>

lemma runTest_validator_fails:
  assumes "0 < n" and w: "wasm r (length (wasm_calls s)) td = Inr w"
    and j: "js r (length (js_calls s)) td = Inr j"
    and f: "f w j = Inl x \<or> (f w j = Inr None \<and>
       x = JsTypeError ''Cannot read properties of undefined (reading success)'')"
  shows "\<exists>s'. runTest r a t z td n (Some f) s = (Inl x, s') \<and>
     wasm_calls s' = wasm_calls s @ [td] \<and> js_calls s' = js_calls s @ [td] \<and>
     export_calls s' = export_calls s \<and> allResults s' = allResults s \<and>
     validator_calls s' = validator_calls s @ [(w, j)]"
proof -
  from trial_fails_validator[where f = f and x = x and m = initial_series, OF w j f] obtain s' where
    t: "trial r td (Some f) 0 initial_series s = (Inl x, s')" and
    frame: "wasm_calls s' = wasm_calls s @ [td]" "js_calls s' = js_calls s @ [td]"
      "export_calls s' = export_calls s" "allResults s' = allResults s"
      "validator_calls s' = validator_calls s @ [(w, j)]" by blast
  from t \<open>0 < n\<close> have "trial_loop r td (Some f) n 0 initial_series s = (Inl x, s')"
    by (simp add: trial_loop.simps)
  then have "runTest r a t z td n (Some f) s = (Inl x, s')" by (simp add: runTest_def)
  with frame show ?thesis by simp
qed

text \<open>
  C8 (as the code has it).  When the validator throws, or returns \<^verbatim>\<open>undefined\<close>, on the
  outputs of the first trial, \<open>TestRunner.runTest\<close> ends with the exception (the
  validator's own, or the TypeError of reading \<^verbatim>\<open>success\<close> of \<^verbatim>\<open>undefined\<close>) after one call
  of each implementation; no further trial runs and the export hook is not called.
  \<open>TestRunnerWithDatabase.runTest\<close> catches it and returns its error result: validation
  not successful, no timings, speedup 0.
\<close>

theorem runTest_validator_failure:
  assumes "0 < n" and "wasm r (length (wasm_calls s)) td = Inr w"
    and "js r (length (js_calls s)) td = Inr j"
    and "f w j = Inl x \<or> (f w j = Inr None \<and>
       x = JsTypeError ''Cannot read properties of undefined (reading success)'')"
  shows "fst (runTest r a t z td n (Some f) s) = Inl x \<and>
     wasm_calls (snd (runTest r a t z td n (Some f) s)) = wasm_calls s @ [td] \<and>
     js_calls (snd (runTest r a t z td n (Some f) s)) = js_calls s @ [td] \<and>
     validator_calls (snd (runTest r a t z td n (Some f) s)) = validator_calls s @ [(w, j)] \<and>
     export_calls (snd (runTest r a t z td n (Some f) s)) = export_calls s \<and>
     fst (runTest_db r a t z td n (Some f) s) = Some (errorResult a t z x) \<and>
     success (validationResults (errorResult a t z x)) = False \<and>
     discrepancies (validationResults (errorResult a t z x)) = [TestExecutionFailed (message x)] \<and>
     wasmTimes (errorResult a t z x) = [] \<and> jsTimes (errorResult a t z x) = [] \<and>
     speedup (errorResult a t z x) = Fin 0"
proof -
  from runTest_validator_fails[where f = f and x = x and a = a and t = t and z = z, OF assms] obtain s' where
    run: "runTest r a t z td n (Some f) s = (Inl x, s')" and
    frame: "wasm_calls s' = wasm_calls s @ [td]" "js_calls s' = js_calls s @ [td]"
      "export_calls s' = export_calls s" "validator_calls s' = validator_calls s @ [(w, j)]"
    by blast
  from frame show ?thesis unfolding run
    by (simp add: runTest_db_def run errorResult_def)
qed

theorem runTest_validator_failure_witness:
  "fst (runTest demo_runner ''demo'' ''math'' ''small'' 4 3 (Some throwing_validator) world0)
     = Inl (JsError ''validator failed'') \<and>
   wasm_calls (snd (runTest demo_runner ''demo'' ''math'' ''small'' 4 3 (Some throwing_validator) world0))
     = [4] \<and>
   fst (runTest_db demo_runner ''demo'' ''math'' ''small'' 4 3 (Some throwing_validator) world0)
     = Some (errorResult ''demo'' ''math'' ''small'' (JsError ''validator failed''))"
proof -
  have n: "(0::nat) < 3" by simp
  have w: "wasm demo_runner (length (wasm_calls world0)) 4 = Inr 8"
    by (simp add: demo_runner_def)
  have j: "js demo_runner (length (js_calls world0)) 4 = Inr 8"
    by (simp add: demo_runner_def)
  have f: "throwing_validator 8 8 = Inl (JsError ''validator failed'') \<or>
      (throwing_validator 8 8 = Inr None \<and> JsError ''validator failed''
         = JsTypeError ''Cannot read properties of undefined (reading success)'')"
    by (simp add: throwing_validator_def)
  note inst = runTest_validator_failure[where f = throwing_validator
      and x = "JsError ''validator failed''" and a = "''demo''" and t = "''math''"
      and z = "''small''", OF n w j f]
  from inst have a: "fst (runTest demo_runner ''demo'' ''math'' ''small'' 4 3 (Some throwing_validator) world0)
     = Inl (JsError ''validator failed'')" by (rule conjunct1)
  from inst have "wasm_calls (snd (runTest demo_runner ''demo'' ''math'' ''small'' 4 3
      (Some throwing_validator) world0)) = wasm_calls world0 @ [4]"
    by (rule conjunct1[OF conjunct2])
  then have b: "wasm_calls (snd (runTest demo_runner ''demo'' ''math'' ''small'' 4 3
      (Some throwing_validator) world0)) = [4]" by (simp add: world0_def)
  from inst have c: "fst (runTest_db demo_runner ''demo'' ''math'' ''small'' 4 3 (Some throwing_validator) world0)
     = Some (errorResult ''demo'' ''math'' ''small'' (JsError ''validator failed''))"
    by (rule conjunct1[OF conjunct2[OF conjunct2[OF conjunct2[OF conjunct2[OF conjunct2]]]]])
  from a b c show ?thesis by (intro conjI)
qed

theorem runTest_validator_failure_counterexample:
  "fst (runTest demo_runner ''demo'' ''math'' ''small'' 4 2 (Some undefined_validator) world0)
     = Inl (JsTypeError ''Cannot read properties of undefined (reading success)'')"
proof -
  have n: "(0::nat) < 2" by simp
  have w: "wasm demo_runner (length (wasm_calls world0)) 4 = Inr 8"
    by (simp add: demo_runner_def)
  have j: "js demo_runner (length (js_calls world0)) 4 = Inr 8"
    by (simp add: demo_runner_def)
  have f: "undefined_validator 8 8
        = Inl (JsTypeError ''Cannot read properties of undefined (reading success)'') \<or>
      (undefined_validator 8 8 = Inr None \<and>
       JsTypeError ''Cannot read properties of undefined (reading success)''
         = JsTypeError ''Cannot read properties of undefined (reading success)'')"
    by (simp add: undefined_validator_def)
  from runTest_validator_fails[where f = undefined_validator
      and x = "JsTypeError ''Cannot read properties of undefined (reading success)''"
      and a = "''demo''" and t = "''math''" and z = "''small''", OF n w j f]
  obtain s' where "runTest demo_runner ''demo'' ''math'' ''small'' 4 2 (Some undefined_validator) world0
      = (Inl (JsTypeError ''Cannot read properties of undefined (reading success)''), s')"
    by blast
  then show ?thesis by simp
qed

section \<open>Binary64 rounding: bounds, exactness, monotonicity\<close>

lemma two_powi_pos [simp]: "0 < (2::rat) powi e"
  by simp

lemma two_powi_mono: "a \<le> b \<Longrightarrow> (2::rat) powi a \<le> 2 powi b"
  by (rule power_int_increasing) simp_all

lemma two_powi_strict_mono: "a < b \<Longrightarrow> (2::rat) powi a < 2 powi b"
  by (rule power_int_strict_increasing) simp_all

lemma two_powi_add: "(2::rat) powi (a + b) = 2 powi a * 2 powi b"
  by (simp add: power_int_add)

lemma two_powi_diff: "(2::rat) powi (a - b) = 2 powi a / 2 powi b"
  by (simp add: power_int_diff)

lemma two_powi_mult: "a + b = c \<Longrightarrow> (2::rat) powi a * 2 powi b = 2 powi c"
  by (simp only: two_powi_add[symmetric])

lemma two_powi_div: "a - b = c \<Longrightarrow> (2::rat) powi a / 2 powi b = 2 powi c"
  by (simp only: two_powi_diff[symmetric])

lemma two_powi_nat: "0 \<le> e \<Longrightarrow> (2::rat) powi e = of_int (2 ^ nat e)"
  by (simp add: power_int_def)

lemma ilog2_bounds:
  assumes "0 < q"
  shows "2 powi (ilog2 q) \<le> q" and "q < 2 powi (ilog2 q + 1)"
proof -
  obtain p d where pd: "quotient_of q = (p, d)" by (cases "quotient_of q")
  then have q: "q = of_int p / of_int d" and d: "0 < d"
    by (simp_all add: quotient_of_div quotient_of_denom_pos)
  with assms have p: "0 < p" by (simp add: zero_less_divide_iff)
  let ?bp = "bitlen p" and ?bd = "bitlen d"
  from bitlen_bounds[OF p] have p1: "2 ^ nat (?bp - 1) \<le> p" and p2: "p < 2 ^ nat ?bp" by simp_all
  from bitlen_bounds[OF d] have d1: "2 ^ nat (?bd - 1) \<le> d" and d2: "d < 2 ^ nat ?bd" by simp_all
  have bp: "1 \<le> ?bp" using p by (simp add: bitlen_alt_def)
  have bd: "1 \<le> ?bd" using d by (simp add: bitlen_alt_def)
  have P1: "(2::rat) powi (?bp - 1) \<le> of_int p"
  proof -
    have "(2::rat) powi (?bp - 1) = of_int (2 ^ nat (?bp - 1))"
      using bp by (intro two_powi_nat) simp
    also have "\<dots> \<le> of_int p" using p1 by (rule iffD2[OF of_int_le_iff])
    finally show ?thesis .
  qed
  have P2: "of_int p < (2::rat) powi ?bp"
  proof -
    have "(of_int p :: rat) < of_int (2 ^ nat ?bp)" using p2 by (rule iffD2[OF of_int_less_iff])
    also have "\<dots> = 2 powi ?bp" using bp by (intro two_powi_nat[symmetric]) simp
    finally show ?thesis .
  qed
  have D1: "(2::rat) powi (?bd - 1) \<le> of_int d"
  proof -
    have "(2::rat) powi (?bd - 1) = of_int (2 ^ nat (?bd - 1))"
      using bd by (intro two_powi_nat) simp
    also have "\<dots> \<le> of_int d" using d1 by (rule iffD2[OF of_int_le_iff])
    finally show ?thesis .
  qed
  have D2: "of_int d < (2::rat) powi ?bd"
  proof -
    have "(of_int d :: rat) < of_int (2 ^ nat ?bd)" using d2 by (rule iffD2[OF of_int_less_iff])
    also have "\<dots> = 2 powi ?bd" using bd by (intro two_powi_nat[symmetric]) simp
    finally show ?thesis .
  qed
  have dpos: "(0::rat) < of_int d" using d by simp
  have upper: "q < 2 powi (?bp - ?bd + 1)"
  proof -
    have "of_int p < (2::rat) powi (?bp - ?bd + 1) * 2 powi (?bd - 1)"
      using P2 by (simp flip: two_powi_add)
    also have "\<dots> \<le> 2 powi (?bp - ?bd + 1) * of_int d"
      using D1 by (simp add: mult_left_mono)
    finally show ?thesis using dpos by (simp add: q pos_divide_less_eq)
  qed
  have lower: "2 powi (?bp - ?bd - 1) \<le> q"
  proof -
    have "(2::rat) powi (?bp - ?bd - 1) * of_int d \<le> 2 powi (?bp - ?bd - 1) * 2 powi ?bd"
      using D2 by (simp add: mult_left_mono)
    also have "\<dots> = 2 powi (?bp - 1)" by (simp flip: two_powi_add)
    also have "\<dots> \<le> of_int p" by (rule P1)
    finally show ?thesis using dpos by (simp add: q pos_le_divide_eq)
  qed
  show "2 powi (ilog2 q) \<le> q"
    using lower by (simp add: ilog2_def pd Let_def)
  show "q < 2 powi (ilog2 q + 1)"
    using upper by (auto simp add: ilog2_def pd Let_def not_le)
qed

lemma ilog2_unique:
  assumes "0 < q" "2 powi e \<le> q" "q < 2 powi (e + 1)"
  shows "ilog2 q = e"
proof (rule antisym)
  show "ilog2 q \<le> e"
  proof (rule ccontr)
    assume "\<not> ilog2 q \<le> e"
    then have "e + 1 \<le> ilog2 q" by simp
    then have "(2::rat) powi (e + 1) \<le> 2 powi ilog2 q" by (rule two_powi_mono)
    with ilog2_bounds(1)[OF assms(1)] assms(3) show False by simp
  qed
  show "e \<le> ilog2 q"
  proof (rule ccontr)
    assume "\<not> e \<le> ilog2 q"
    then have "ilog2 q + 1 \<le> e" by simp
    then have "(2::rat) powi (ilog2 q + 1) \<le> 2 powi e" by (rule two_powi_mono)
    with ilog2_bounds(2)[OF assms(1)] assms(2) show False by simp
  qed
qed

lemma ilog2_mono:
  assumes "0 < a" "a \<le> b"
  shows "ilog2 a \<le> ilog2 b"
proof (rule ccontr)
  assume "\<not> ilog2 a \<le> ilog2 b"
  then have "ilog2 b + 1 \<le> ilog2 a" by simp
  then have "(2::rat) powi (ilog2 b + 1) \<le> 2 powi ilog2 a" by (rule two_powi_mono)
  with ilog2_bounds(1)[OF assms(1)] ilog2_bounds(2)[of b] assms show False by simp
qed


subsection \<open>Rounding to an integer\<close>

lemma round_even_of_int [simp]: "round_even (of_int k) = k"
  by (simp add: round_even_def)

lemma round_even_floor: "\<lfloor>x\<rfloor> \<le> round_even x" and round_even_floor1: "round_even x \<le> \<lfloor>x\<rfloor> + 1"
  by (simp_all add: round_even_def Let_def)

lemma round_even_mono:
  assumes "x \<le> y"
  shows "round_even x \<le> round_even y"
proof (cases "\<lfloor>x\<rfloor> = \<lfloor>y\<rfloor>")
  case True
  with assms have "x - of_int \<lfloor>x\<rfloor> \<le> y - of_int \<lfloor>y\<rfloor>" by simp
  with True show ?thesis by (auto simp: round_even_def Let_def)
next
  case False
  with assms have "\<lfloor>x\<rfloor> < \<lfloor>y\<rfloor>" using floor_mono[OF assms] by simp
  then have "\<lfloor>x\<rfloor> + 1 \<le> \<lfloor>y\<rfloor>" by simp
  with round_even_floor1[of x] round_even_floor[of y] show ?thesis by linarith
qed

lemma round_even_ge: "of_int k \<le> x \<Longrightarrow> k \<le> round_even x"
  using round_even_mono[of "of_int k" x] by simp

lemma round_even_le: "x \<le> of_int k \<Longrightarrow> round_even x \<le> k"
  using round_even_mono[of x "of_int k"] by simp

subsection \<open>Rounding a magnitude\<close>

lemma ulp_of_pos [simp]: "0 < ulp_of a"
  by (simp add: ulp_of_def)

lemma round_magnitude_nonneg: "0 < a \<Longrightarrow> 0 \<le> round_magnitude a"
proof -
  assume "0 < a"
  then have "of_int 0 \<le> a / ulp_of a"
    using ulp_of_pos[of a] by (simp add: zero_le_divide_iff less_imp_le)
  then have "0 \<le> round_even (a / ulp_of a)" by (rule round_even_ge)
  then have "(0::rat) \<le> of_int (round_even (a / ulp_of a))" by simp
  then show ?thesis
    using ulp_of_pos[of a] unfolding round_magnitude_def
    by (intro mult_nonneg_nonneg) (simp_all add: less_imp_le)
qed

lemma round_magnitude_exact:
  assumes m: "0 < m" "m < 2 ^ 53" and e: "- 1074 \<le> e"
  shows "round_magnitude (of_int m * 2 powi e) = of_int m * 2 powi e"
proof -
  define a :: rat where "a = of_int m * 2 powi e"
  define u where "u = ulp_of a"
  have a: "0 < a" using m by (simp add: a_def)
  have u: "0 < u" by (simp add: u_def)
  let ?E = "max (ilog2 a) (- 1022)"
  have "(of_int m :: rat) < of_int (2 ^ 53)" using m(2) by (rule iffD2[OF of_int_less_iff])
  then have "(of_int m :: rat) < 2 powi 53" by simp
  then have "a < 2 powi 53 * 2 powi e" by (simp add: a_def)
  then have "a < 2 powi (53 + e)" by (simp add: two_powi_add)
  with ilog2_bounds(1)[OF a] have "(2::rat) powi (ilog2 a) < 2 powi (53 + e)" by simp
  then have "ilog2 a < 53 + e"
    by (metis not_le two_powi_mono leD)
  with e have E: "?E - 52 \<le> e" by simp
  define k where "k = nat (e - (?E - 52))"
  have "(2::rat) powi e = 2 powi (int k + (?E - 52))" using E by (simp add: k_def)
  also have "\<dots> = 2 ^ k * u" by (simp only: two_powi_add ulp_of_def u_def power_int_of_nat)
  finally have pe: "(2::rat) powi e = 2 ^ k * u" .
  have au: "a = of_int (m * 2 ^ k) * u" by (simp add: a_def pe)
  with u have "a / u = of_int (m * 2 ^ k)" by simp
  then have "round_even (a / u) = m * 2 ^ k" by (simp only: round_even_of_int)
  then have "round_magnitude a = of_int (m * 2 ^ k) * u"
    by (simp only: round_magnitude_def u_def)
  with au have "round_magnitude a = a" by simp
  then show ?thesis by (simp only: a_def)
qed

lemma round_magnitude_upper:
  assumes "0 < a"
  shows "round_magnitude a \<le> 2 powi (max (ilog2 a) (- 1022) + 1)"
proof -
  let ?E = "max (ilog2 a) (- 1022)"
  have "a < 2 powi (ilog2 a + 1)" by (rule ilog2_bounds(2)[OF assms])
  also have "\<dots> \<le> 2 powi (?E + 1)" by (rule two_powi_mono) simp
  finally have "a < 2 powi (?E + 1)" .
  then have "a / ulp_of a < 2 powi (?E + 1) / ulp_of a"
    by (simp add: divide_strict_right_mono)
  also have "2 powi (?E + 1) / ulp_of a = (2::rat) powi 53"
    unfolding ulp_of_def by (rule two_powi_div) simp
  also have "(2::rat) powi 53 = of_int (2 ^ 53)" by simp
  finally have "round_even (a / ulp_of a) \<le> 2 ^ 53"
    by (intro round_even_le) simp
  then have "(of_int (round_even (a / ulp_of a)) :: rat) \<le> of_int (2 ^ 53)"
    by (rule iffD2[OF of_int_le_iff])
  then have "round_magnitude a \<le> of_int (2 ^ 53) * ulp_of a"
    by (simp add: round_magnitude_def mult_right_mono)
  also have "of_int (2 ^ 53) * ulp_of a = 2 powi 53 * 2 powi (?E - 52)"
    by (simp only: ulp_of_def power_int_numeral of_int_power of_int_numeral)
  also have "\<dots> = 2 powi (?E + 1)" by (rule two_powi_mult) simp
  finally show ?thesis .
qed

lemma round_magnitude_lower:
  assumes "0 < a" "- 1022 \<le> ilog2 a"
  shows "2 powi (ilog2 a) \<le> round_magnitude a"
proof -
  have E: "max (ilog2 a) (- 1022) = ilog2 a" using assms(2) by simp
  have u: "ulp_of a = 2 powi (ilog2 a - 52)" by (simp add: ulp_of_def E)
  have "2 powi (ilog2 a) / ulp_of a \<le> a / ulp_of a"
    by (rule divide_right_mono[OF ilog2_bounds(1)[OF assms(1)]]) (simp add: less_imp_le)
  moreover have "2 powi (ilog2 a) / ulp_of a = (2::rat) powi 52"
    unfolding u by (rule two_powi_div) simp
  moreover have "(2::rat) powi 52 = of_int (2 ^ 52)" by simp
  ultimately have "of_int (2 ^ 52) \<le> a / ulp_of a" by simp
  then have "2 ^ 52 \<le> round_even (a / ulp_of a)" by (rule round_even_ge)
  then have "(of_int (2 ^ 52) :: rat) \<le> of_int (round_even (a / ulp_of a))"
    by (rule iffD2[OF of_int_le_iff])
  then have "of_int (2 ^ 52) * ulp_of a \<le> round_magnitude a"
    by (simp add: round_magnitude_def mult_right_mono)
  moreover have "of_int (2 ^ 52) * ulp_of a = 2 powi 52 * 2 powi (ilog2 a - 52)"
    by (simp only: u power_int_numeral of_int_power of_int_numeral)
  moreover have "(2::rat) powi 52 * 2 powi (ilog2 a - 52) = 2 powi (ilog2 a)"
    by (rule two_powi_mult) simp
  ultimately show ?thesis by simp
qed

lemma round_magnitude_mono:
  assumes "0 < a" "a \<le> b"
  shows "round_magnitude a \<le> round_magnitude b"
proof -
  from assms have b: "0 < b" by simp
  let ?Ea = "max (ilog2 a) (- 1022)" and ?Eb = "max (ilog2 b) (- 1022)"
  from ilog2_mono[OF assms] have le: "?Ea \<le> ?Eb" by simp
  show ?thesis
  proof (cases "?Ea = ?Eb")
    case True
    then have u: "ulp_of a = ulp_of b" by (simp add: ulp_of_def)
    have "a / ulp_of b \<le> b / ulp_of b"
      by (rule divide_right_mono[OF assms(2)]) (simp add: less_imp_le)
    then have "round_even (a / ulp_of b) \<le> round_even (b / ulp_of b)" by (rule round_even_mono)
    then have "(of_int (round_even (a / ulp_of b)) :: rat) \<le> of_int (round_even (b / ulp_of b))"
      by (rule iffD2[OF of_int_le_iff])
    then show ?thesis by (simp add: round_magnitude_def u mult_right_mono)
  next
    case False
    with le have lt: "?Ea < ?Eb" by linarith
    then have norm: "- 1022 \<le> ilog2 b" and Eb: "?Eb = ilog2 b" by linarith+
    have "round_magnitude a \<le> 2 powi (?Ea + 1)" by (rule round_magnitude_upper[OF assms(1)])
    also have "\<dots> \<le> 2 powi (ilog2 b)" using lt Eb by (intro two_powi_mono) linarith
    also have "\<dots> \<le> round_magnitude b" by (rule round_magnitude_lower[OF b norm])
    finally show ?thesis .
  qed
qed

lemma round_magnitude_grid:
  "\<exists>k. round_magnitude a = of_int k * 2 powi (- 1074)"
proof -
  let ?E = "max (ilog2 a) (- 1022)"
  define j where "j = nat (?E + 1022)"
  have "int j + (- 1074) = ?E - 52" unfolding j_def by linarith
  then have "2 powi (int j) * 2 powi (- 1074) = ulp_of a"
    unfolding ulp_of_def by (rule two_powi_mult)
  then have u: "ulp_of a = of_int (2 ^ j) * 2 powi (- 1074)"
    by (simp only: power_int_of_nat of_int_power of_int_numeral)
  have "round_magnitude a = of_int (round_even (a / ulp_of a)) * (of_int (2 ^ j) * 2 powi (- 1074))"
    unfolding round_magnitude_def using u by (rule arg_cong)
  also have "\<dots> = of_int (round_even (a / ulp_of a) * 2 ^ j) * 2 powi (- 1074)"
    by (simp only: of_int_mult mult.assoc)
  finally show ?thesis by (rule exI)
qed


subsection \<open>Rounding a number\<close>

lemma fl_zero [simp]: "fl 0 = Fin 0"
  by (simp add: fl_def)

lemma fl_pos:
  "0 < q \<Longrightarrow> fl q = (if overflow_threshold \<le> round_magnitude q then PInf
                      else Fin (round_magnitude q))"
  by (simp add: fl_def Let_def)

lemma fl_neg:
  "q < 0 \<Longrightarrow> fl q = (if overflow_threshold \<le> round_magnitude (- q) then NInf
                      else Fin (- round_magnitude (- q)))"
  by (simp add: fl_def Let_def)

lemma fl_minus: "fl (- q) = js_neg (fl q)"
proof -
  consider "q = 0" | "0 < q" | "q < 0" by linarith
  then show ?thesis
  proof cases
    case 1
    then show ?thesis by simp
  next
    case 2
    then have "- q < 0" by simp
    from fl_neg[OF this] fl_pos[OF 2] show ?thesis by simp
  next
    case 3
    then have "0 < - q" by simp
    from fl_pos[OF this] fl_neg[OF 3] show ?thesis by simp
  qed
qed

lemma fl_not_NaN [simp]: "fl q \<noteq> NaN"
  by (simp add: fl_def Let_def)

lemma fl_exact_pos:
  assumes m: "0 < m" "m < 2 ^ 53" and e: "- 1074 \<le> e" "e \<le> 971"
  shows "fl (of_int m * 2 powi e) = Fin (of_int m * 2 powi e)"
proof -
  let ?a = "of_int m * 2 powi e :: rat"
  have a: "0 < ?a" using m by simp
  have r: "round_magnitude ?a = ?a" by (rule round_magnitude_exact[OF m e(1)])
  have "(of_int m :: rat) < of_int (2 ^ 53)" using m(2) by (rule iffD2[OF of_int_less_iff])
  then have m53: "(of_int m :: rat) < 2 powi 53"
    by (simp only: power_int_numeral of_int_power of_int_numeral)
  have e971: "(2::rat) powi e \<le> 2 powi 971" using e(2) by (rule two_powi_mono)
  have "?a < 2 powi 53 * 2 powi 971"
  proof (rule mult_less_le_imp_less[OF m53 e971])
    show "(0::rat) \<le> of_int m" using m(1) by simp
    show "(0::rat) < 2 powi e" by simp
  qed
  also have "(2::rat) powi 53 * 2 powi 971 = overflow_threshold"
    unfolding overflow_threshold_def by (rule two_powi_mult) simp
  finally have "\<not> overflow_threshold \<le> round_magnitude ?a" by (simp only: r not_le)
  with fl_pos[OF a] r show ?thesis by simp
qed

lemma fl_exact:
  assumes m: "\<bar>m\<bar> < 2 ^ 53" and e: "- 1074 \<le> e" "e \<le> 971"
  shows "fl (of_int m * 2 powi e) = Fin (of_int m * 2 powi e)"
proof -
  consider "m = 0" | "0 < m" | "m < 0" by linarith
  then show ?thesis
  proof cases
    case 1
    then show ?thesis by simp
  next
    case 2
    with m have "m < 2 ^ 53" by simp
    from fl_exact_pos[OF 2 this e] show ?thesis .
  next
    case 3
    with m have "0 < - m" "- m < 2 ^ 53" by simp_all
    from fl_exact_pos[OF this e] have "fl (of_int (- m) * 2 powi e) = Fin (of_int (- m) * 2 powi e)" .
    then have "fl (- (of_int m * 2 powi e)) = Fin (- (of_int m * 2 powi e))" by simp
    then have "js_neg (fl (of_int m * 2 powi e)) = Fin (- (of_int m * 2 powi e))"
      by (simp only: fl_minus)
    then show ?thesis by (cases "fl (of_int m * 2 powi e)") simp_all
  qed
qed

lemma fl_of_int: "\<bar>k\<bar> < 2 ^ 53 \<Longrightarrow> fl (of_int k) = Fin (of_int k)"
  using fl_exact[of k 0] by simp

lemma fl_of_nat: "n < 2 ^ 53 \<Longrightarrow> fl (of_nat n) = Fin (of_nat n)"
proof -
  assume "n < 2 ^ 53"
  then have "int n < int (2 ^ 53)" by (rule iffD2[OF of_nat_less_iff])
  then have "\<bar>int n\<bar> < 2 ^ 53" by simp
  from fl_of_int[OF this] show ?thesis by simp
qed

lemma fl_half: "\<bar>k\<bar> < 2 ^ 53 \<Longrightarrow> fl (of_int k / 2) = Fin (of_int k / 2)"
  using fl_exact[of k "- 1"] by simp

lemma fl_pos_cases:
  assumes "0 < q"
  obtains "fl q = PInf" | r where "fl q = Fin r" "r = round_magnitude q" "0 \<le> r"
    "r < overflow_threshold"
  using fl_pos[OF assms] round_magnitude_nonneg[OF assms]
  by (cases "overflow_threshold \<le> round_magnitude q") (simp_all add: not_le)

lemma fl_mono_pos:
  assumes "0 < x" "x \<le> y"
  shows "js_le (fl x) (fl y)"
proof -
  from assms have y: "0 < y" by simp
  note mono = round_magnitude_mono[OF assms]
  show ?thesis
    using fl_pos[OF assms(1)] fl_pos[OF y] mono by (auto simp: not_le)
qed

lemma js_le_neg: "a \<noteq> NaN \<Longrightarrow> b \<noteq> NaN \<Longrightarrow> js_le (js_neg a) (js_neg b) = js_le b a"
  by (cases a; cases b) simp_all

lemma fl_mono:
  assumes "x \<le> y"
  shows "js_le (fl x) (fl y)"
proof -
  consider "0 < x" | "y < 0" | "x \<le> 0" "0 \<le> y" by linarith
  then show ?thesis
  proof cases
    case 1
    from fl_mono_pos[OF 1 assms] show ?thesis .
  next
    case 2
    with assms have "0 < - y" "- y \<le> - x" by simp_all
    from fl_mono_pos[OF this] have "js_le (js_neg (fl y)) (js_neg (fl x))"
      by (simp only: fl_minus)
    then show ?thesis by (simp add: js_le_neg)
  next
    case 3
    have a: "js_le (fl x) (Fin 0)"
    proof (cases "x = 0")
      case True
      then show ?thesis by simp
    next
      case False
      with 3 have "x < 0" by simp
      then have "0 < - x" by simp
      from fl_neg[OF \<open>x < 0\<close>] round_magnitude_nonneg[OF this] show ?thesis by auto
    qed
    have b: "js_le (Fin 0) (fl y)"
    proof (cases "y = 0")
      case True
      then show ?thesis by simp
    next
      case False
      with 3 have "0 < y" by simp
      from fl_pos[OF this] round_magnitude_nonneg[OF this] show ?thesis by auto
    qed
    from a b show ?thesis by (cases "fl x"; cases "fl y") (auto split: if_splits)
  qed
qed

lemma fl_between:
  assumes lo: "is_double lo" and hi: "is_double hi" and "lo \<le> x" "x \<le> hi"
  shows "\<exists>r. fl x = Fin r \<and> lo \<le> r \<and> r \<le> hi"
proof -
  from fl_mono[OF assms(3)] lo have a: "js_le (Fin lo) (fl x)" by (simp add: is_double_def)
  from fl_mono[OF assms(4)] hi have b: "js_le (fl x) (Fin hi)" by (simp add: is_double_def)
  from a b show ?thesis by (cases "fl x") auto
qed

lemma is_double_of_int: "\<bar>k\<bar> < 2 ^ 53 \<Longrightarrow> is_double (of_int k)"
  by (simp add: is_double_def fl_of_int)

lemma is_double_of_nat: "n < 2 ^ 53 \<Longrightarrow> is_double (of_nat n)"
  by (simp add: is_double_def fl_of_nat)

lemma is_double_grid:
  assumes "is_double x"
  shows "\<exists>k. x = of_int k * 2 powi (- 1074)"
proof -
  consider "x = 0" | "0 < x" | "x < 0" by linarith
  then show ?thesis
  proof cases
    case 1
    have "x = of_int 0 * 2 powi (- 1074)" using 1 by simp
    then show ?thesis by (rule exI)
  next
    case 2
    from assms fl_pos[OF 2] have "x = round_magnitude x"
      by (simp add: is_double_def split: if_splits)
    with round_magnitude_grid[of x] show ?thesis by simp
  next
    case 3
    from assms fl_neg[OF 3] have x: "x = - round_magnitude (- x)"
      by (simp add: is_double_def split: if_splits)
    from round_magnitude_grid[of "- x"] obtain k where
      "round_magnitude (- x) = of_int k * 2 powi (- 1074)" by blast
    with x have "x = of_int (- k) * 2 powi (- 1074)" by simp
    then show ?thesis by (rule exI)
  qed
qed

subsection \<open>The comparator and the sort\<close>

lemma js_sub_Fin: "js_sub (Fin x) (Fin y) = fl (x - y)"
  by (simp add: js_sub_def)

lemma fl_sign_pos:
  assumes "2 powi (- 1074) \<le> d"
  shows "js_lt (Fin 0) (fl d)"
proof -
  have one: "fl (of_int 1 * 2 powi (- 1074)) = Fin (of_int 1 * 2 powi (- 1074))"
    by (rule fl_exact) simp_all
  have "js_le (fl (of_int 1 * 2 powi (- 1074))) (fl d)"
    by (rule fl_mono) (simp only: of_int_1 mult_1 assms)
  with one have le: "js_le (Fin (2 powi (- 1074))) (fl d)" by (simp only: of_int_1 mult_1)
  have pos: "(0::rat) < 2 powi (- 1074)" by (rule two_powi_pos)
  show ?thesis
  proof (cases "fl d")
    case (Fin r)
    with le have "2 powi (- 1074) \<le> r" by (simp only: js_le.simps js_lt.simps not_less)
    with pos have "0 < r" by (rule less_le_trans)
    with Fin show ?thesis by simp
  next
    case PInf
    then show ?thesis by simp
  next
    case NInf
    with le show ?thesis by (simp only: js_le.simps js_lt.simps) simp
  next
    case NaN
    then show ?thesis by simp
  qed
qed

lemma fl_sign_nonpos:
  assumes "d \<le> 0"
  shows "\<not> js_lt (Fin 0) (fl d)"
proof -
  from fl_mono[OF assms] have "js_le (fl d) (Fin 0)" by simp
  then show ?thesis by (cases "fl d") simp_all
qed

lemma double_diff_grid:
  assumes "is_double x" "is_double y" "y < x"
  shows "2 powi (- 1074) \<le> x - y"
proof -
  from is_double_grid[OF assms(1)] obtain k where x: "x = of_int k * 2 powi (- 1074)" by blast
  from is_double_grid[OF assms(2)] obtain l where y: "y = of_int l * 2 powi (- 1074)" by blast
  have pos: "(0::rat) < 2 powi (- 1074)" by (rule two_powi_pos)
  have d: "x - y = of_int (k - l) * 2 powi (- 1074)"
    by (simp only: x y of_int_diff left_diff_distrib)
  from assms(3) have "0 < x - y" by simp
  with d pos have "(0::rat) < of_int (k - l)" by (simp only: zero_less_mult_iff) auto
  then have "1 \<le> k - l" by simp
  then have "(of_int 1 :: rat) \<le> of_int (k - l)" by (rule iffD2[OF of_int_le_iff])
  then have "of_int 1 * 2 powi (- 1074) \<le> of_int (k - l) * (2::rat) powi (- 1074)"
    using pos by (intro mult_right_mono) (simp_all add: less_imp_le)
  then show ?thesis by (simp only: d of_int_1 mult_1)
qed

lemma comparator_doubles:
  assumes "is_double x" "is_double y"
  shows "js_gt (js_sub (Fin x) (Fin y)) (Fin 0) \<longleftrightarrow> y < x"
proof (cases "y < x")
  case True
  from fl_sign_pos[OF double_diff_grid[OF assms True]] True show ?thesis
    by (simp add: js_gt_def js_sub_Fin)
next
  case False
  then have "x - y \<le> 0" by simp
  from fl_sign_nonpos[OF this] False show ?thesis
    by (simp add: js_gt_def js_sub_Fin)
qed

lemma js_insort_doubles:
  assumes "is_double x" "\<forall>y\<in>set ys. is_double y"
  shows "js_insort (Fin x) (map Fin ys) = map Fin (insort x ys)"
  using assms(2)
proof (induction ys)
  case Nil
  then show ?case by simp
next
  case (Cons y ys)
  then have y: "is_double y" and ys: "\<forall>y\<in>set ys. is_double y" by simp_all
  from comparator_doubles[OF assms(1) y] Cons.IH[OF ys] show ?case
    by (auto simp: not_less)
qed

lemma foldr_js_insort_doubles:
  assumes "\<forall>x\<in>set xs. is_double x"
  shows "foldr js_insort (map Fin xs) [] = map Fin (sort xs)"
  using assms
proof (induction xs)
  case Nil
  then show ?case by simp
next
  case (Cons x xs)
  then have x: "is_double x" and xs: "\<forall>y\<in>set xs. is_double y" by simp_all
  have s: "\<forall>y\<in>set (sort xs). is_double y" using xs by simp
  from Cons.IH[OF xs] js_insort_doubles[OF x s] show ?case
    by (simp add: sort_key_simps)
qed

lemma js_sort_doubles:
  assumes "\<forall>x\<in>set xs. is_double x"
  shows "js_sort (map (\<lambda>x. Some (Fin x)) xs) = map (\<lambda>x. Some (Fin x)) (sort xs)"
proof -
  have f1: "filter (\<lambda>v. v \<noteq> None) (map (\<lambda>x. Some (Fin x)) xs) = map (\<lambda>x. Some (Fin x)) xs"
    by (induction xs) simp_all
  have f2: "filter (\<lambda>v. v = None) (map (\<lambda>x. Some (Fin x)) xs) = []"
    by (induction xs) simp_all
  have m: "map the (map (\<lambda>x. Some (Fin x)) xs) = map Fin xs" by simp
  have "js_sort (map (\<lambda>x. Some (Fin x)) xs) = map Some (foldr js_insort (map Fin xs) [])"
    unfolding js_sort_def f1 f2 m by simp
  also have "\<dots> = map Some (map Fin (sort xs))"
    by (simp only: foldr_js_insort_doubles[OF assms])
  also have "\<dots> = map (\<lambda>x. Some (Fin x)) (sort xs)" by simp
  finally show ?thesis .
qed

subsection \<open>Evaluating a rounding from its exponent\<close>

lemma fl_eval:
  assumes q: "0 < q" and lo: "2 powi e \<le> q" and hi: "q < 2 powi (e + 1)"
    and e: "- 1022 \<le> e" "e \<le> 1022"
  shows "fl q = Fin (of_int (round_even (q / 2 powi (e - 52))) * 2 powi (e - 52))"
proof -
  have il: "ilog2 q = e" by (rule ilog2_unique[OF q lo hi])
  have E: "max (ilog2 q) (- 1022) = e" using e(1) unfolding il by linarith
  have u: "ulp_of q = 2 powi (e - 52)" by (simp only: ulp_of_def E)
  have "round_magnitude q \<le> 2 powi (e + 1)"
    using round_magnitude_upper[OF q] by (simp only: E)
  also have "(2::rat) powi (e + 1) < 2 powi 1024"
    using e(2) by (intro two_powi_strict_mono) simp
  finally have "\<not> overflow_threshold \<le> round_magnitude q"
    by (simp only: overflow_threshold_def not_le)
  with fl_pos[OF q] have "fl q = Fin (round_magnitude q)" by simp
  then show ?thesis by (simp only: round_magnitude_def u)
qed

subsection \<open>Indices\<close>

lemma js_index_nat:
  "k < length xs \<Longrightarrow> js_index xs (Fin (of_nat k)) = xs ! k"
  by (simp add: js_index_def)

lemma maxIndex_eq:
  assumes "1 \<le> length xs" "length xs < 2 ^ 32"
  shows "maxIndex xs = Fin (of_nat (length xs - 1))"
proof -
  have e1: "(of_nat (length xs) :: rat) - 1 = of_int (int (length xs) - 1)" by simp
  have b: "\<bar>int (length xs) - 1\<bar> < 2 ^ 53" using assms by simp
  have e2: "int (length xs) - 1 = int (length xs - 1)" using assms(1) by simp
  have "maxIndex xs = fl (of_nat (length xs) - 1)"
    by (simp only: maxIndex_def js_length_def js_sub_Fin)
  also have "\<dots> = fl (of_int (int (length xs) - 1))" by (simp only: e1)
  also have "\<dots> = Fin (of_int (int (length xs) - 1))" by (rule fl_of_int[OF b])
  also have "\<dots> = Fin (of_nat (length xs - 1))" by (simp only: e2 of_int_of_nat_eq)
  finally show ?thesis .
qed

lemma medianIndex_eq:
  assumes "length xs < 2 ^ 32"
  shows "medianIndex xs = Fin (of_nat (length xs div 2))"
proof -
  have b: "\<bar>int (length xs)\<bar> < 2 ^ 53" using assms by simp
  have f: "\<lfloor>(of_int (int (length xs)) :: rat) / 2\<rfloor> = int (length xs div 2)"
    using floor_divide_of_nat_eq[of "length xs" 2, where ?'a = rat] by simp
  have "medianIndex xs = js_floor (fl (of_int (int (length xs)) / 2))"
    by (simp add: medianIndex_def js_length_def)
  also have "\<dots> = js_floor (Fin (of_int (int (length xs)) / 2))"
    by (simp only: fl_half[OF b])
  also have "\<dots> = Fin (of_int (int (length xs div 2)))"
    by (simp only: js_floor.simps f)
  also have "\<dots> = Fin (of_nat (length xs div 2))" by (simp only: of_int_of_nat_eq)
  finally show ?thesis .
qed

lemma is_double_127_128: "is_double (of_nat n * (127 / 128))" if "n < 2 ^ 32"
proof -
  have "\<bar>int n * 127\<bar> < 2 ^ 53" using that by simp
  from fl_exact[OF this, of "- 7"]
  have "fl (of_int (int n * 127) * 2 powi (- 7)) = Fin (of_int (int n * 127) * 2 powi (- 7))"
    by simp
  moreover have "of_int (int n * 127) * 2 powi (- 7) = (of_nat n * (127 / 128) :: rat)"
    by simp
  ultimately show ?thesis by (simp only: is_double_def)
qed

lemma literal_below_one:
  assumes "0 \<le> q" "q \<le> 127 / 128"
  shows "\<exists>c. fl q = Fin c \<and> 0 \<le> c \<and> c \<le> 127 / 128"
proof -
  have z: "is_double 0" by (simp add: is_double_def)
  have "is_double (of_nat 1 * (127 / 128))" by (rule is_double_127_128) simp
  then have h: "is_double (127 / 128)" by simp
  from fl_between[OF z h assms] show ?thesis .
qed

lemma scaled_index:
  assumes c: "0 \<le> c" "c \<le> 127 / 128" and n: "1 \<le> length xs" "length xs < 2 ^ 32"
  shows "\<exists>k<length xs. js_floor (js_mul (js_length xs) (Fin c)) = Fin (of_nat k)"
proof -
  let ?n = "of_nat (length xs) :: rat"
  have npos: "0 < ?n" using n(1) by (cases xs) simp_all
  have z: "is_double 0" by (simp add: is_double_def)
  have h: "is_double (?n * (127 / 128))" by (rule is_double_127_128[OF n(2)])
  have lo: "0 \<le> ?n * c" using c(1) by simp
  have hi: "?n * c \<le> ?n * (127 / 128)" using c(2) npos by (intro mult_left_mono) simp_all
  from fl_between[OF z h lo hi] obtain r where
    r: "fl (?n * c) = Fin r" "0 \<le> r" "r \<le> ?n * (127 / 128)" by blast
  have "?n * (127 / 128) < ?n" using npos by simp
  with r(3) have rn: "r < ?n" by (rule le_less_trans)
  define k where "k = nat \<lfloor>r\<rfloor>"
  have fl0: "0 \<le> \<lfloor>r\<rfloor>" using r(2) by simp
  have "of_int \<lfloor>r\<rfloor> \<le> r" by simp
  from this rn have "(of_int \<lfloor>r\<rfloor> :: rat) < of_nat (length xs)" by (rule le_less_trans)
  then have "(of_int \<lfloor>r\<rfloor> :: rat) < of_int (int (length xs))" by (simp only: of_int_of_nat_eq)
  then have "\<lfloor>r\<rfloor> < int (length xs)" by (rule iffD1[OF of_int_less_iff])
  with fl0 have k: "k < length xs" unfolding k_def by (simp only: nat_less_iff)
  have "(of_int \<lfloor>r\<rfloor> :: rat) = of_nat k"
    using of_nat_nat[OF fl0, where ?'a = rat] by (simp only: k_def)
  with r(1) have "js_floor (js_mul (js_length xs) (Fin c)) = Fin (of_nat k)"
    by (simp add: js_length_def)
  with k show ?thesis by blast
qed

lemma p95Index_bound:
  assumes "1 \<le> length xs" "length xs < 2 ^ 32"
  shows "\<exists>k<length xs. p95Index xs = Fin (of_nat k)"
proof -
  have "\<exists>c. fl (95 / 100) = Fin c \<and> 0 \<le> c \<and> c \<le> 127 / 128"
    by (rule literal_below_one) simp_all
  then obtain c where c: "fl (95 / 100) = Fin c" "0 \<le> c" "c \<le> 127 / 128" by blast
  from scaled_index[OF c(2,3) assms] show ?thesis by (simp only: p95Index_def c(1))
qed

lemma p99Index_bound:
  assumes "1 \<le> length xs" "length xs < 2 ^ 32"
  shows "\<exists>k<length xs. p99Index xs = Fin (of_nat k)"
proof -
  have "\<exists>c. fl (99 / 100) = Fin c \<and> 0 \<le> c \<and> c \<le> 127 / 128"
    by (rule literal_below_one) simp_all
  then obtain c where c: "fl (99 / 100) = Fin c" "0 \<le> c" "c \<le> 127 / 128" by blast
  from scaled_index[OF c(2,3) assms] show ?thesis by (simp only: p99Index_def c(1))
qed

subsection \<open>The sorted copy\<close>

lemma length_js_insort [simp]: "length (js_insort x ys) = Suc (length ys)"
  by (induction ys) simp_all

lemma length_foldr_js_insort [simp]: "length (foldr js_insort xs []) = length xs"
  by (induction xs) simp_all

lemma length_js_sort [simp]: "length (js_sort xs) = length xs"
proof -
  have "length (filter (\<lambda>v. v \<noteq> None) xs) + length (filter (\<lambda>v. v = None) xs) = length xs"
    using sum_length_filter_compl[of "\<lambda>v. v \<noteq> None" xs] by simp
  then show ?thesis by (simp add: js_sort_def)
qed

lemma js_sort_numbers:
  assumes "\<forall>v\<in>set xs. v \<noteq> None"
  shows "\<forall>v\<in>set (js_sort xs). v \<noteq> None"
proof -
  from assms have "filter (\<lambda>v. v = None) xs = []" by (simp add: filter_empty_conv)
  then show ?thesis by (auto simp: js_sort_def)
qed

lemma calculateStats_fields:
  "min_stat (calculateStats xs) = js_index (js_sort xs) (Fin 0)"
  "max_stat (calculateStats xs) = js_index (js_sort xs) (maxIndex (js_sort xs))"
  "median (calculateStats xs) = js_index (js_sort xs) (medianIndex (js_sort xs))"
  "p95 (calculateStats xs) = js_index (js_sort xs) (p95Index (js_sort xs))"
  "p99 (calculateStats xs) = js_index (js_sort xs) (p99Index (js_sort xs))"
  "mean (calculateStats xs) =
     js_div (foldl (\<lambda>a b. js_add a (to_number b)) (Fin 0) xs) (js_length xs)"
  by (simp_all add: calculateStats_def Let_def)

subsection \<open>Statistics of a series of finite numbers\<close>

lemma stat_nth:
  assumes "1 \<le> length xs" "length xs < 2 ^ 32"
  shows "min_stat (calculateStats xs) = js_sort xs ! 0"
    and "max_stat (calculateStats xs) = js_sort xs ! (length xs - 1)"
    and "median (calculateStats xs) = js_sort xs ! (length xs div 2)"
proof -
  have len: "length (js_sort xs) = length xs" by simp
  have l1: "1 \<le> length (js_sort xs)" and l2: "length (js_sort xs) < 2 ^ 32"
    using assms by (simp_all only: len)
  have pos: "0 < length (js_sort xs)" using l1 by linarith
  have "js_index (js_sort xs) (Fin (of_nat 0)) = js_sort xs ! 0"
    by (rule js_index_nat[OF pos])
  then show "min_stat (calculateStats xs) = js_sort xs ! 0"
    by (simp add: calculateStats_fields)
  have "length (js_sort xs) - 1 < length (js_sort xs)" using pos by linarith
  from js_index_nat[OF this] maxIndex_eq[OF l1 l2]
  show "max_stat (calculateStats xs) = js_sort xs ! (length xs - 1)"
    by (simp add: calculateStats_fields)
  have "length (js_sort xs) div 2 < length (js_sort xs)" using pos by linarith
  from js_index_nat[OF this] medianIndex_eq[OF l2]
  show "median (calculateStats xs) = js_sort xs ! (length xs div 2)"
    by (simp add: calculateStats_fields)
qed

lemma percentile_nth:
  assumes "1 \<le> length xs" "length xs < 2 ^ 32"
  shows "\<exists>j<length xs. p95Index (js_sort xs) = Fin (of_nat j) \<and>
           p95 (calculateStats xs) = js_sort xs ! j"
    and "\<exists>k<length xs. p99Index (js_sort xs) = Fin (of_nat k) \<and>
           p99 (calculateStats xs) = js_sort xs ! k"
proof -
  have len: "length (js_sort xs) = length xs" by simp
  have l1: "1 \<le> length (js_sort xs)" and l2: "length (js_sort xs) < 2 ^ 32"
    using assms by (simp_all only: len)
  from p95Index_bound[OF l1 l2] obtain j where
    j: "j < length (js_sort xs)" "p95Index (js_sort xs) = Fin (of_nat j)" by blast
  from js_index_nat[OF j(1)] j(2) have "p95 (calculateStats xs) = js_sort xs ! j"
    by (simp add: calculateStats_fields)
  with j show "\<exists>j<length xs. p95Index (js_sort xs) = Fin (of_nat j) \<and>
           p95 (calculateStats xs) = js_sort xs ! j" by (auto simp only: len)
  from p99Index_bound[OF l1 l2] obtain k where
    k: "k < length (js_sort xs)" "p99Index (js_sort xs) = Fin (of_nat k)" by blast
  from js_index_nat[OF k(1)] k(2) have "p99 (calculateStats xs) = js_sort xs ! k"
    by (simp add: calculateStats_fields)
  with k show "\<exists>k<length xs. p99Index (js_sort xs) = Fin (of_nat k) \<and>
           p99 (calculateStats xs) = js_sort xs ! k" by (auto simp only: len)
qed

lemma js_sort_nth_number:
  assumes "\<forall>v\<in>set xs. v \<noteq> None" "i < length xs"
  shows "js_sort xs ! i \<noteq> None"
proof -
  from assms(2) have "js_sort xs ! i \<in> set (js_sort xs)" by simp
  with js_sort_numbers[OF assms(1)] show ?thesis by blast
qed

lemma sort_nth_bounds:
  fixes xs :: "rat list"
  assumes "i < length xs"
  shows "sort xs ! 0 \<le> sort xs ! i" and "sort xs ! i \<le> sort xs ! (length xs - 1)"
proof -
  have s: "sorted (sort xs)" by simp
  from assms show "sort xs ! 0 \<le> sort xs ! i"
    by (intro sorted_nth_mono[OF s]) simp_all
  from assms show "sort xs ! i \<le> sort xs ! (length xs - 1)"
    by (intro sorted_nth_mono[OF s]) simp_all
qed

lemma sort_bounds_all:
  fixes xs :: "rat list"
  assumes "x \<in> set xs"
  shows "sort xs ! 0 \<le> x" and "x \<le> sort xs ! (length xs - 1)"
proof -
  from assms have "x \<in> set (sort xs)" by simp
  then have "\<exists>i<length (sort xs). sort xs ! i = x" by (simp only: in_set_conv_nth)
  then obtain i where i: "i < length (sort xs)" "sort xs ! i = x" by blast
  then have "i < length xs" by simp
  from sort_nth_bounds[OF this] i(2) show "sort xs ! 0 \<le> x" "x \<le> sort xs ! (length xs - 1)"
    by simp_all
qed

lemma stats_doubles:
  assumes "1 \<le> length xs" "length xs < 2 ^ 32" "\<forall>x\<in>set xs. is_double x"
  shows "min_stat (calculateStats (map (\<lambda>x. Some (Fin x)) xs)) = Some (Fin (sort xs ! 0))"
    and "max_stat (calculateStats (map (\<lambda>x. Some (Fin x)) xs))
           = Some (Fin (sort xs ! (length xs - 1)))"
    and "median (calculateStats (map (\<lambda>x. Some (Fin x)) xs))
           = Some (Fin (sort xs ! (length xs div 2)))"
proof -
  let ?S = "map (\<lambda>x. Some (Fin x)) xs"
  have l: "1 \<le> length ?S" "length ?S < 2 ^ 32" using assms(1,2) by simp_all
  have pos: "0 < length xs" using assms(1) by linarith
  note st = stat_nth[OF l] and so = js_sort_doubles[OF assms(3)]
  from pos show "min_stat (calculateStats ?S) = Some (Fin (sort xs ! 0))"
    by (simp add: st so)
  from pos show "max_stat (calculateStats ?S) = Some (Fin (sort xs ! (length xs - 1)))"
    by (simp add: st so)
  from pos show "median (calculateStats ?S) = Some (Fin (sort xs ! (length xs div 2)))"
    by (simp add: st so)
qed

lemma foldl_exact:
  assumes "\<forall>k. 1 \<le> k \<and> k \<le> length ys \<longrightarrow> is_double (acc + sum_list (take k ys))"
  shows "foldl (\<lambda>a b. js_add a (to_number b)) (Fin acc) (map (\<lambda>x. Some (Fin x)) ys)
           = Fin (acc + sum_list ys)"
  using assms
proof (induction ys arbitrary: acc)
  case Nil
  then show ?case by simp
next
  case (Cons y ys)
  from Cons.prems have "is_double (acc + sum_list (take 1 (y # ys)))" by force
  then have step: "fl (acc + y) = Fin (acc + y)" by (simp add: is_double_def)
  have "\<forall>k. 1 \<le> k \<and> k \<le> length ys \<longrightarrow> is_double (acc + y + sum_list (take k ys))"
  proof (intro allI impI)
    fix k assume "1 \<le> k \<and> k \<le> length ys"
    then have "1 \<le> Suc k \<and> Suc k \<le> length (y # ys)" by simp
    with Cons.prems have "is_double (acc + sum_list (take (Suc k) (y # ys)))" by blast
    then show "is_double (acc + y + sum_list (take k ys))" by (simp add: add.assoc)
  qed
  from Cons.IH[OF this] step show ?case by (simp add: to_number_def add.assoc)
qed

lemma sum_list_bounds:
  fixes xs :: "rat list"
  assumes "\<forall>x\<in>set xs. lo \<le> x \<and> x \<le> hi"
  shows "of_nat (length xs) * lo \<le> sum_list xs" and "sum_list xs \<le> of_nat (length xs) * hi"
  using assms by (induction xs) (auto simp: algebra_simps)

lemma mean_between:
  fixes xs :: "rat list"
  assumes "xs \<noteq> []"
  shows "sort xs ! 0 \<le> sum_list xs / of_nat (length xs)"
    and "sum_list xs / of_nat (length xs) \<le> sort xs ! (length xs - 1)"
proof -
  have b: "\<forall>x\<in>set xs. sort xs ! 0 \<le> x \<and> x \<le> sort xs ! (length xs - 1)"
    using sort_bounds_all by blast
  have n: "(0::rat) < of_nat (length xs)" using assms by simp
  from sum_list_bounds(1)[OF b] n show "sort xs ! 0 \<le> sum_list xs / of_nat (length xs)"
    by (simp add: pos_le_divide_eq mult.commute)
  from sum_list_bounds(2)[OF b] n show "sum_list xs / of_nat (length xs) \<le> sort xs ! (length xs - 1)"
    by (simp add: pos_divide_le_eq mult.commute)
qed

section \<open>Index bounds of the summary\<close>

text \<open>
  C10.  For a series of length \<open>N\<close> with \<open>1 \<le> N < 2\<^sup>3\<^sup>2\<close> (the length of a JavaScript
  array), the three computed indices \<open>Math.floor(N / 2)\<close>, \<open>Math.floor(N * 0.95)\<close> and
  \<open>Math.floor(N * 0.99)\<close>, evaluated in binary64 arithmetic, are integers below \<open>N\<close>,
  as are \<open>0\<close> and \<open>N - 1\<close>: every read of the sorted copy is in bounds, and when every
  sample is a number, none of min, max, median, p95 and p99 is \<^verbatim>\<open>undefined\<close> (mean and
  stdDev are numbers in any case).
\<close>

theorem calculateStats_indices_in_bounds:
  assumes "1 \<le> length times_v" and "length times_v < 2 ^ 32"
  shows "\<exists>i j k. i < length times_v \<and> j < length times_v \<and> k < length times_v \<and>
     i = length times_v div 2 \<and>
     medianIndex (js_sort times_v) = Fin (of_nat i) \<and>
     p95Index (js_sort times_v) = Fin (of_nat j) \<and>
     p99Index (js_sort times_v) = Fin (of_nat k) \<and>
     min_stat (calculateStats times_v) = js_sort times_v ! 0 \<and>
     max_stat (calculateStats times_v) = js_sort times_v ! (length times_v - 1) \<and>
     median (calculateStats times_v) = js_sort times_v ! i \<and>
     p95 (calculateStats times_v) = js_sort times_v ! j \<and>
     p99 (calculateStats times_v) = js_sort times_v ! k \<and>
     ((\<forall>v\<in>set times_v. v \<noteq> None) \<longrightarrow>
        min_stat (calculateStats times_v) \<noteq> None \<and>
        max_stat (calculateStats times_v) \<noteq> None \<and>
        median (calculateStats times_v) \<noteq> None \<and>
        p95 (calculateStats times_v) \<noteq> None \<and>
        p99 (calculateStats times_v) \<noteq> None)"
proof -
  have len: "length (js_sort times_v) = length times_v" by simp
  have l2: "length (js_sort times_v) < 2 ^ 32" using assms(2) by (simp only: len)
  have pos: "0 < length times_v" using assms(1) by linarith
  then have i: "length times_v div 2 < length times_v" by linarith
  from pos have z: "0 < length times_v" "length times_v - 1 < length times_v" by linarith+
  from percentile_nth(1)[OF assms] obtain j where
    j: "j < length times_v" "p95Index (js_sort times_v) = Fin (of_nat j)"
       "p95 (calculateStats times_v) = js_sort times_v ! j" by blast
  from percentile_nth(2)[OF assms] obtain k where
    k: "k < length times_v" "p99Index (js_sort times_v) = Fin (of_nat k)"
       "p99 (calculateStats times_v) = js_sort times_v ! k" by blast
  note st = stat_nth[OF assms]
  have m: "medianIndex (js_sort times_v) = Fin (of_nat (length times_v div 2))"
    using medianIndex_eq[OF l2] by (simp only: len)
  have num: "(\<forall>v\<in>set times_v. v \<noteq> None) \<longrightarrow>
        min_stat (calculateStats times_v) \<noteq> None \<and>
        max_stat (calculateStats times_v) \<noteq> None \<and>
        median (calculateStats times_v) \<noteq> None \<and>
        p95 (calculateStats times_v) \<noteq> None \<and>
        p99 (calculateStats times_v) \<noteq> None"
  proof
    assume a: "\<forall>v\<in>set times_v. v \<noteq> None"
    show "min_stat (calculateStats times_v) \<noteq> None \<and>
        max_stat (calculateStats times_v) \<noteq> None \<and>
        median (calculateStats times_v) \<noteq> None \<and>
        p95 (calculateStats times_v) \<noteq> None \<and>
        p99 (calculateStats times_v) \<noteq> None"
      unfolding st j(3) k(3)
      by (intro conjI js_sort_nth_number[OF a] z i j(1) k(1))
  qed
  show ?thesis
    by (intro exI[of _ "length times_v div 2"] exI[of _ j] exI[of _ k] conjI
        i j(1) k(1) refl m j(2) k(2) st j(3) k(3) num)
qed

theorem calculateStats_indices_in_bounds_witness:
  "\<exists>i j k. i < 3 \<and> j < 3 \<and> k < 3 \<and>
     medianIndex (js_sort [Some (Fin 7), Some (Fin 5), Some (Fin 6)]) = Fin (of_nat i) \<and>
     p95Index (js_sort [Some (Fin 7), Some (Fin 5), Some (Fin 6)]) = Fin (of_nat j) \<and>
     p99Index (js_sort [Some (Fin 7), Some (Fin 5), Some (Fin 6)]) = Fin (of_nat k) \<and>
     median (calculateStats [Some (Fin 7), Some (Fin 5), Some (Fin 6)]) \<noteq> None \<and>
     p95 (calculateStats [Some (Fin 7), Some (Fin 5), Some (Fin 6)]) \<noteq> None \<and>
     p99 (calculateStats [Some (Fin 7), Some (Fin 5), Some (Fin 6)]) \<noteq> None"
proof -
  let ?L = "[Some (Fin 7), Some (Fin 5), Some (Fin 6)]"
  have a: "1 \<le> length ?L" and b: "length ?L < 2 ^ 32" by simp_all
  have c: "\<forall>v\<in>set ?L. v \<noteq> None" by simp
  from calculateStats_indices_in_bounds[OF a b] obtain i j k where
    h: "i < length ?L" "j < length ?L" "k < length ?L"
       "medianIndex (js_sort ?L) = Fin (of_nat i)"
       "p95Index (js_sort ?L) = Fin (of_nat j)"
       "p99Index (js_sort ?L) = Fin (of_nat k)"
       "(\<forall>v\<in>set ?L. v \<noteq> None) \<longrightarrow>
          min_stat (calculateStats ?L) \<noteq> None \<and>
          max_stat (calculateStats ?L) \<noteq> None \<and>
          median (calculateStats ?L) \<noteq> None \<and>
          p95 (calculateStats ?L) \<noteq> None \<and>
          p99 (calculateStats ?L) \<noteq> None"
    by blast
  from h(7) c have d: "median (calculateStats ?L) \<noteq> None" "p95 (calculateStats ?L) \<noteq> None"
    "p99 (calculateStats ?L) \<noteq> None" by blast+
  have l: "length ?L = 3" by simp
  from h(1,2,3) have "i < 3" "j < 3" "k < 3" by (simp_all only: l)
  with h(4,5,6) d show ?thesis by blast
qed

section \<open>The median\<close>

text \<open>
  C3.  For a non-empty series of length \<open>N\<close> (below \<open>2\<^sup>3\<^sup>2\<close>) the median of the summary is
  the element at index \<open>\<lfloor>N / 2\<rfloor>\<close> of the sorted copy; for finite numbers that copy is
  the ascending sort, so for even \<open>N\<close> the median is the upper of the two middle
  elements and never their average.
\<close>

theorem calculateStats_median:
  assumes "1 \<le> length times_v" and "length times_v < 2 ^ 32"
  shows "median (calculateStats times_v) = js_sort times_v ! (length times_v div 2) \<and>
     (\<forall>xs. (\<forall>x\<in>set xs. is_double x) \<and> times_v = map (\<lambda>x. Some (Fin x)) xs \<longrightarrow>
        median (calculateStats times_v) = Some (Fin (sort xs ! (length xs div 2))))"
proof (intro conjI allI impI)
  show "median (calculateStats times_v) = js_sort times_v ! (length times_v div 2)"
    by (rule stat_nth(3)[OF assms])
next
  fix xs
  assume h: "(\<forall>x\<in>set xs. is_double x) \<and> times_v = map (\<lambda>x. Some (Fin x)) xs"
  then have d: "\<forall>x\<in>set xs. is_double x" and t: "times_v = map (\<lambda>x. Some (Fin x)) xs"
    by simp_all
  from assms t have l: "1 \<le> length xs" "length xs < 2 ^ 32" by simp_all
  from stats_doubles(3)[OF l d] t
  show "median (calculateStats times_v) = Some (Fin (sort xs ! (length xs div 2)))" by simp
qed

lemma small_doubles: "is_double 1" "is_double 2" "is_double 3" "is_double 4" "is_double 6"
  using is_double_of_int[of 1] is_double_of_int[of 2] is_double_of_int[of 3]
    is_double_of_int[of 4] is_double_of_int[of 6] by simp_all

theorem calculateStats_median_witness:
  "median (calculateStats [Some (Fin 4), Some (Fin 1), Some (Fin 3), Some (Fin 2)]) = Some (Fin 3) \<and>
   median (calculateStats [Some (Fin 4), Some (Fin 1), Some (Fin 3), Some (Fin 2)])
     \<noteq> Some (Fin (5 / 2))"
proof -
  let ?L = "[Some (Fin 4), Some (Fin 1), Some (Fin 3), Some (Fin 2)]"
  have a: "1 \<le> length ?L" and b: "length ?L < 2 ^ 32" by simp_all
  have d: "(\<forall>x\<in>set [4, 1, 3, 2 :: rat]. is_double x) \<and>
      ?L = map (\<lambda>x. Some (Fin x)) [4, 1, 3, 2]"
    by (simp add: small_doubles)
  from conjunct2[OF calculateStats_median[OF a b], rule_format, OF d]
  have "median (calculateStats ?L) = Some (Fin (sort [4, 1, 3, 2 :: rat] ! (length [4, 1, 3, 2 :: rat] div 2)))" .
  moreover have "sort [4, 1, 3, 2 :: rat] ! (length [4, 1, 3, 2 :: rat] div 2) = 3" by simp
  ultimately have m: "median (calculateStats ?L) = Some (Fin 3)" by (simp only:)
  then show ?thesis by simp
qed

section \<open>Bounds of median and mean\<close>

lemma is_double_tenth: "is_double tenth"
proof -
  have "fl (of_int 3602879701896397 * 2 powi (- 55)) = Fin (of_int 3602879701896397 * 2 powi (- 55))"
    by (rule fl_exact) simp_all
  then show ?thesis by (simp add: is_double_def tenth_def)
qed

lemma fl_tenth: "fl (1 / 10) = Fin tenth"
proof -
  have "fl (1 / 10) = Fin (of_int (round_even ((1 / 10) / 2 powi (- 4 - 52))) * 2 powi (- 4 - 52))"
    by (rule fl_eval) simp_all
  moreover have "round_even ((1 / 10) / 2 powi (- 4 - 52)) = 7205759403792794"
  proof -
    have f: "\<lfloor>36028797018963968 / 5 :: rat\<rfloor> = 7205759403792793"
      by (rule floor_unique) simp_all
    show ?thesis by (simp add: round_even_def Let_def f)
  qed
  ultimately show ?thesis by (simp add: tenth_def)
qed

lemma fl_two_tenths: "fl (tenth + tenth) = Fin (3602879701896397 / 18014398509481984)"
proof -
  have "fl (of_int 3602879701896397 * 2 powi (- 54)) = Fin (of_int 3602879701896397 * 2 powi (- 54))"
    by (rule fl_exact) simp_all
  then show ?thesis by (simp add: tenth_def)
qed

lemma fl_three_tenths:
  "fl (3602879701896397 / 18014398509481984 + tenth) = Fin (1351079888211149 / 4503599627370496)"
proof -
  have "fl (10808639105689191 / 36028797018963968)
      = Fin (of_int (round_even ((10808639105689191 / 36028797018963968) / 2 powi (- 2 - 52)))
               * 2 powi (- 2 - 52))"
    by (rule fl_eval) simp_all
  moreover have "round_even ((10808639105689191 / 36028797018963968) / 2 powi (- 2 - 52))
      = 5404319552844596"
  proof -
    have f: "\<lfloor>10808639105689191 / 2 :: rat\<rfloor> = 5404319552844595"
      by (rule floor_unique) simp_all
    show ?thesis by (simp add: round_even_def Let_def f)
  qed
  ultimately show ?thesis by (simp add: tenth_def)
qed

lemma fl_mean_tenths:
  "fl (1351079888211149 / 13510798882111488) = Fin (7205759403792795 / 72057594037927936)"
proof -
  have "fl (1351079888211149 / 13510798882111488)
      = Fin (of_int (round_even ((1351079888211149 / 13510798882111488) / 2 powi (- 4 - 52)))
               * 2 powi (- 4 - 52))"
    by (rule fl_eval) simp_all
  moreover have "round_even ((1351079888211149 / 13510798882111488) / 2 powi (- 4 - 52))
      = 7205759403792795"
  proof -
    have f: "\<lfloor>21617278211378384 / 3 :: rat\<rfloor> = 7205759403792794"
      by (rule floor_unique) simp_all
    show ?thesis by (simp add: round_even_def Let_def f)
  qed
  ultimately show ?thesis by simp
qed

lemma mean_tenths:
  "mean (calculateStats [Some (Fin tenth), Some (Fin tenth), Some (Fin tenth)])
     = Fin (7205759403792795 / 72057594037927936)"
proof -
  have z: "fl tenth = Fin tenth" using is_double_tenth by (simp only: is_double_def)
  have s1: "js_add (Fin 0) (Fin tenth) = Fin tenth" by (simp add: z)
  have s2: "js_add (Fin tenth) (Fin tenth) = Fin (3602879701896397 / 18014398509481984)"
    by (simp only: js_add.simps fl_two_tenths)
  have s3: "js_add (Fin (3602879701896397 / 18014398509481984)) (Fin tenth)
      = Fin (1351079888211149 / 4503599627370496)"
    by (simp only: js_add.simps fl_three_tenths)
  have fold: "foldl (\<lambda>a b. js_add a (to_number b)) (Fin 0)
          [Some (Fin tenth), Some (Fin tenth), Some (Fin tenth)]
        = Fin (1351079888211149 / 4503599627370496)"
    by (simp only: foldl.simps to_number_def option.case s1 s2 s3)
  have len: "js_length [Some (Fin tenth), Some (Fin tenth), Some (Fin tenth)] = Fin 3"
    by (simp add: js_length_def)
  have dv: "js_div (Fin (1351079888211149 / 4503599627370496)) (Fin 3)
      = Fin (7205759403792795 / 72057594037927936)"
    by (simp add: fl_mean_tenths)
  show ?thesis by (simp only: calculateStats_fields(6) fold len dv)
qed

subsection \<open>The error of one rounding\<close>

lemma round_even_error: "\<bar>of_int (round_even x) - x\<bar> \<le> 1 / 2"
proof -
  have a: "of_int \<lfloor>x\<rfloor> \<le> x" by linarith
  have b: "x < of_int \<lfloor>x\<rfloor> + 1" by linarith
  show ?thesis
    unfolding round_even_def Let_def using a b by (simp split: if_splits)
qed

lemma round_magnitude_error:
  assumes "0 < a"
  shows "\<bar>round_magnitude a - a\<bar> \<le> unit_roundoff * a + tiny"
proof -
  define w where "w = ulp_of a"
  have w: "0 < w" by (simp add: w_def)
  have rm: "round_magnitude a = of_int (round_even (a / w)) * w"
    by (simp only: round_magnitude_def w_def)
  have "a / w * w = a" using w by simp
  then have "round_magnitude a - a = (of_int (round_even (a / w)) - a / w) * w"
    by (simp only: rm left_diff_distrib)
  then have "\<bar>round_magnitude a - a\<bar> = \<bar>of_int (round_even (a / w)) - a / w\<bar> * w"
    using w by (simp add: abs_mult)
  also have "\<dots> \<le> (1 / 2) * w"
    by (rule mult_right_mono[OF round_even_error]) (simp add: less_imp_le w)
  finally have half: "\<bar>round_magnitude a - a\<bar> \<le> w / 2" by simp
  have "w / 2 \<le> unit_roundoff * a + tiny"
  proof (cases "- 1022 \<le> ilog2 a")
    case True
    then have "w = 2 powi (ilog2 a - 52)" by (simp add: w_def ulp_of_def)
    then have "w / 2 = 2 powi (ilog2 a - 52) / 2 powi 1" by simp
    also have "\<dots> = 2 powi (ilog2 a + (- 53))" by (rule two_powi_div) simp
    also have "\<dots> = 2 powi (ilog2 a) * unit_roundoff"
      by (simp only: two_powi_add unit_roundoff_def)
    also have "\<dots> \<le> a * unit_roundoff"
      by (rule mult_right_mono[OF ilog2_bounds(1)[OF assms]]) (simp add: unit_roundoff_def)
    finally have "w / 2 \<le> unit_roundoff * a" by (simp add: mult.commute)
    moreover have "0 \<le> tiny" by (simp add: tiny_def)
    ultimately show ?thesis by linarith
  next
    case False
    then have "w = 2 powi (- 1022 - 52)" by (simp add: w_def ulp_of_def)
    then have "w / 2 = 2 powi (- 1074) / 2 powi 1" by simp
    also have "\<dots> = tiny" unfolding tiny_def by (rule two_powi_div) simp
    finally have "w / 2 = tiny" .
    moreover have "0 \<le> unit_roundoff * a" using assms by (simp add: unit_roundoff_def)
    ultimately show ?thesis by linarith
  qed
  with half show ?thesis by linarith
qed

lemma round_magnitude_huge:
  assumes "0 < a" "a \<le> 2 powi 1023"
  shows "round_magnitude a < overflow_threshold"
proof -
  have "round_magnitude (of_int 1 * 2 powi 1023) = of_int 1 * 2 powi 1023"
    by (rule round_magnitude_exact) simp_all
  then have e: "round_magnitude (2 powi 1023) = 2 powi 1023" by simp
  from round_magnitude_mono[OF assms] e have "round_magnitude a \<le> 2 powi 1023" by simp
  also have "(2::rat) powi 1023 < 2 powi 1024" by (rule two_powi_strict_mono) simp
  finally show ?thesis by (simp only: overflow_threshold_def)
qed

lemma fl_error_pos:
  assumes "0 < q" "q \<le> 2 powi 1023"
  shows "\<exists>r. fl q = Fin r \<and> \<bar>r - q\<bar> \<le> unit_roundoff * \<bar>q\<bar> + tiny"
proof -
  from round_magnitude_huge[OF assms] fl_pos[OF assms(1)]
  have "fl q = Fin (round_magnitude q)" by (simp add: not_le[symmetric])
  moreover from round_magnitude_error[OF assms(1)] assms(1)
  have "\<bar>round_magnitude q - q\<bar> \<le> unit_roundoff * \<bar>q\<bar> + tiny" by simp
  ultimately show ?thesis by blast
qed

lemma fl_error:
  assumes "\<bar>q\<bar> \<le> 2 powi 1023"
  shows "\<exists>r. fl q = Fin r \<and> \<bar>r - q\<bar> \<le> unit_roundoff * \<bar>q\<bar> + tiny"
proof -
  consider "q = 0" | "0 < q" | "q < 0" by linarith
  then show ?thesis
  proof cases
    case 1
    then show ?thesis by (simp add: tiny_def)
  next
    case 2
    with assms have "q \<le> 2 powi 1023" by simp
    from fl_error_pos[OF 2 this] show ?thesis .
  next
    case 3
    with assms have p: "0 < - q" "- q \<le> 2 powi 1023" by simp_all
    from fl_error_pos[OF p] obtain r where
      r: "fl (- q) = Fin r" "\<bar>r - (- q)\<bar> \<le> unit_roundoff * \<bar>- q\<bar> + tiny" by blast
    from r(1) have "js_neg (fl q) = Fin r" by (simp only: fl_minus)
    then have "fl q = Fin (- r)" by (cases "fl q") simp_all
    moreover have "\<bar>- r - q\<bar> = \<bar>r - (- q)\<bar>" by simp
    ultimately show ?thesis using r(2) by (intro exI[of _ "- r"]) simp
  qed
qed

subsection \<open>The error of the running sum and of the mean\<close>

lemma unit_roundoff_pos: "0 < unit_roundoff" and tiny_pos: "0 < tiny"
  by (simp_all add: unit_roundoff_def tiny_def)

lemma small_count:
  assumes "n < (2::nat) ^ 32"
  shows "of_nat n * unit_roundoff \<le> 1 / 2" and "2 * of_nat n * tiny \<le> 1"
proof -
  from assms have "int n \<le> 2 ^ 32" by simp
  then have "(of_int (int n) :: rat) \<le> of_int (2 ^ 32)" by (rule iffD2[OF of_int_le_iff])
  then have n: "(of_nat n :: rat) \<le> 2 powi 32"
    by (simp only: of_int_of_nat_eq power_int_numeral of_int_power of_int_numeral)
  have "of_nat n * unit_roundoff \<le> 2 powi 32 * unit_roundoff"
    by (rule mult_right_mono[OF n]) (simp add: unit_roundoff_def)
  also have "2 powi 32 * unit_roundoff = 2 powi (- 21)"
    unfolding unit_roundoff_def by (rule two_powi_mult) simp
  also have "(2::rat) powi (- 21) \<le> 2 powi (- 1)" by (rule two_powi_mono) simp
  finally show "of_nat n * unit_roundoff \<le> 1 / 2" by simp
  have "of_nat n * tiny \<le> 2 powi 32 * tiny"
    by (rule mult_right_mono[OF n]) (simp add: tiny_def)
  also have "2 powi 32 * tiny = 2 powi (- 1043)"
    unfolding tiny_def by (rule two_powi_mult) simp
  also have "(2::rat) powi (- 1043) \<le> 2 powi (- 1)" by (rule two_powi_mono) simp
  finally show "2 * of_nat n * tiny \<le> 1" by simp
qed

lemma sum_list_abs_bound:
  fixes xs :: "rat list"
  assumes "\<forall>x\<in>set xs. \<bar>x\<bar> \<le> A"
  shows "\<bar>sum_list xs\<bar> \<le> of_nat (length xs) * A"
  using assms
proof (induction xs)
  case Nil
  then show ?case by simp
next
  case (Cons x xs)
  then have "\<bar>x\<bar> \<le> A" "\<bar>sum_list xs\<bar> \<le> of_nat (length xs) * A" by simp_all
  then have "\<bar>x + sum_list xs\<bar> \<le> A + of_nat (length xs) * A" by linarith
  then show ?case by (simp add: algebra_simps)
qed

lemma room:
  assumes "c \<le> (2::rat) powi 1021"
  shows "2 * c + 1 \<le> 2 powi 1023"
proof -
  have "(2::rat) powi 0 \<le> 2 powi 1021" by (rule two_powi_mono) simp
  then have one: "(1::rat) \<le> 2 powi 1021" by simp
  have "(2::rat) powi 2 * 2 powi 1021 = 2 powi 1023" by (rule two_powi_mult) simp
  then have "4 * (2::rat) powi 1021 = 2 powi 1023" by simp
  with assms one show ?thesis by linarith
qed

lemma foldl_error:
  fixes xs :: "rat list"
  assumes "\<forall>x\<in>set xs. \<bar>x\<bar> \<le> A" and "length xs \<le> n" and n: "n < 2 ^ 32"
    and nA: "of_nat n * A \<le> 2 powi 1021"
  shows "\<exists>s. foldl (\<lambda>a b. js_add a (to_number b)) (Fin 0) (map (\<lambda>x. Some (Fin x)) xs) = Fin s \<and>
     \<bar>s - sum_list xs\<bar> \<le> of_nat (length xs) * of_nat (length xs) * unit_roundoff * A
                              + 2 * of_nat (length xs) * tiny"
  using assms(1,2)
proof (induction xs rule: rev_induct)
  case Nil
  then show ?case by simp
next
  case (snoc x xs)
  define K :: rat where "K = of_nat (length xs)"
  define P where "P = K * unit_roundoff * A"
  define Q where "Q = K * K * unit_roundoff * A"
  define V where "V = unit_roundoff * A"
  define W where "W = K * tiny"
  define E where "E = Q + 2 * W"
  from snoc.prems have bx: "\<bar>x\<bar> \<le> A" and bxs: "\<forall>y\<in>set xs. \<bar>y\<bar> \<le> A"
    and len: "Suc (length xs) \<le> n" by simp_all
  from bx have A0: "0 \<le> A" by linarith
  from len have len': "length xs \<le> n" by simp
  from snoc.IH[OF bxs len'] obtain s where
    s: "foldl (\<lambda>a b. js_add a (to_number b)) (Fin 0) (map (\<lambda>x. Some (Fin x)) xs) = Fin s"
    and es0: "\<bar>s - sum_list xs\<bar> \<le> of_nat (length xs) * of_nat (length xs) * unit_roundoff * A
                              + 2 * of_nat (length xs) * tiny" by blast
  from es0 have es: "\<bar>s - sum_list xs\<bar> \<le> E"
    by (simp only: E_def Q_def W_def K_def mult.assoc)
  have K0: "0 \<le> K" by (simp add: K_def)
  from len n have "length xs < 2 ^ 32" by linarith
  from small_count[OF this] have KU: "K * unit_roundoff \<le> 1 / 2" and KT: "2 * W \<le> 1"
    by (simp_all only: K_def W_def mult.assoc)
  have U0: "0 \<le> unit_roundoff" and T0: "0 \<le> tiny"
    using unit_roundoff_pos tiny_pos by simp_all
  have KA0: "0 \<le> K * A" using K0 A0 by simp
  have V0: "0 \<le> V" unfolding V_def using U0 A0 by simp
  have P0: "0 \<le> P" unfolding P_def using K0 U0 A0 by simp
  have W0: "0 \<le> W" unfolding W_def using K0 T0 by simp
  define KA where "KA = K * A"
  have KA0': "0 \<le> KA" using KA0 by (simp only: KA_def)
  have "(K * unit_roundoff) * KA \<le> (1 / 2) * KA" by (rule mult_right_mono[OF KU KA0'])
  moreover have "(K * unit_roundoff) * KA = Q" by (simp add: Q_def KA_def algebra_simps)
  ultimately have "Q \<le> (1 / 2) * KA" by (simp only:)
  with KA0' have "Q \<le> KA" by linarith
  then have QA: "Q \<le> K * A" by (simp only: KA_def)
  have "(K * unit_roundoff) * P \<le> (1 / 2) * P" by (rule mult_right_mono[OF KU P0])
  moreover have "(K * unit_roundoff) * P = unit_roundoff * Q"
    by (simp add: Q_def P_def algebra_simps)
  ultimately have "unit_roundoff * Q \<le> (1 / 2) * P" by (simp only:)
  with P0 have UQ: "unit_roundoff * Q \<le> P" by linarith
  have "(K * unit_roundoff) * tiny \<le> (1 / 2) * tiny" by (rule mult_right_mono[OF KU T0])
  moreover have "(K * unit_roundoff) * tiny = unit_roundoff * W"
    by (simp add: W_def algebra_simps)
  ultimately have "unit_roundoff * W \<le> (1 / 2) * tiny" by (simp only:)
  then have UW: "unit_roundoff * (2 * W) \<le> tiny" by linarith
  have UE: "unit_roundoff * E \<le> P + tiny"
    using UQ UW by (simp add: E_def distrib_left)
  have T: "\<bar>sum_list xs\<bar> \<le> K * A" unfolding K_def by (rule sum_list_abs_bound[OF bxs])
  have D: "\<bar>s + x\<bar> \<le> K * A + A + E" using T bx es by linarith
  have "of_nat (Suc (length xs)) * A \<le> of_nat n * A"
    by (rule mult_right_mono[OF _ A0]) (use len in simp)
  then have "K * A + A \<le> of_nat n * A" by (simp add: K_def algebra_simps)
  with nA have c: "K * A + A \<le> 2 powi 1021" by linarith
  have "\<bar>s + x\<bar> \<le> 2 * (K * A + A) + 1" using D QA KT A0 by (simp add: E_def)
  also have "\<dots> \<le> 2 powi 1023" by (rule room[OF c])
  finally have big: "\<bar>s + x\<bar> \<le> 2 powi 1023" .
  from fl_error[OF big] obtain r where
    r: "fl (s + x) = Fin r" and er: "\<bar>r - (s + x)\<bar> \<le> unit_roundoff * \<bar>s + x\<bar> + tiny" by blast
  have "unit_roundoff * \<bar>s + x\<bar> \<le> unit_roundoff * (K * A + A + E)"
    by (rule mult_left_mono[OF D U0])
  also have "\<dots> = P + V + unit_roundoff * E"
    by (simp add: P_def V_def algebra_simps)
  finally have UD: "unit_roundoff * \<bar>s + x\<bar> \<le> P + V + (P + tiny)" using UE by linarith
  have "\<bar>r - (sum_list xs + x)\<bar> \<le> \<bar>r - (s + x)\<bar> + \<bar>s - sum_list xs\<bar>" by linarith
  with er es UD have fin: "\<bar>r - (sum_list xs + x)\<bar> \<le> Q + 2 * P + V + 2 * W + 2 * tiny"
    by (simp add: E_def)
  have goal: "of_nat (length (xs @ [x])) * of_nat (length (xs @ [x])) * unit_roundoff * A
                + 2 * of_nat (length (xs @ [x])) * tiny = Q + 2 * P + V + 2 * W + 2 * tiny"
    by (simp add: Q_def P_def V_def W_def K_def algebra_simps)
  have tn: "to_number (Some (Fin x)) = Fin x" by (simp add: to_number_def)
  have "foldl (\<lambda>a b. js_add a (to_number b)) (Fin 0) (map (\<lambda>x. Some (Fin x)) (xs @ [x])) = Fin r"
    by (simp only: map_append list.map foldl_append foldl.simps s tn js_add.simps r)
  moreover have "\<bar>r - sum_list (xs @ [x])\<bar> \<le>
      of_nat (length (xs @ [x])) * of_nat (length (xs @ [x])) * unit_roundoff * A
                + 2 * of_nat (length (xs @ [x])) * tiny"
    using fin by (simp only: goal sum_list_append sum_list.Cons sum_list.Nil add_0_right)
  ultimately show ?case by blast
qed

lemma mean_error:
  fixes xs :: "rat list"
  assumes ne: "xs \<noteq> []" and n: "length xs < 2 ^ 32" and b: "\<forall>x\<in>set xs. \<bar>x\<bar> \<le> A"
    and nA: "of_nat (length xs) * A \<le> 2 powi 1021"
  shows "\<exists>mu. mean (calculateStats (map (\<lambda>x. Some (Fin x)) xs)) = Fin mu \<and>
     \<bar>mu - sum_list xs / of_nat (length xs)\<bar> \<le> mean_slack (length xs) A"
proof -
  define N :: rat where "N = of_nat (length xs)"
  define T where "T = sum_list xs"
  define P where "P = N * unit_roundoff * A"
  define V where "V = unit_roundoff * A"
  define NA where "NA = N * A"
  from ne have "1 \<le> length xs" by (cases xs) simp_all
  then have "(of_nat 1 :: rat) \<le> of_nat (length xs)" by (rule iffD2[OF of_nat_le_iff])
  then have N1: "1 \<le> N" by (simp add: N_def)
  then have N0: "0 < N" by linarith
  from ne obtain x where "x \<in> set xs" by (cases xs) auto
  with b have "\<bar>x\<bar> \<le> A" by blast
  then have A0: "0 \<le> A" by linarith
  have U0: "0 \<le> unit_roundoff" and T0: "0 \<le> tiny"
    using unit_roundoff_pos tiny_pos by simp_all
  have V0: "0 \<le> V" unfolding V_def using U0 A0 by simp
  from small_count[OF n] have NU: "N * unit_roundoff \<le> 1 / 2" by (simp_all only: N_def)
  have "(1::nat) < 2 ^ 32" by simp
  from small_count[OF this] have U2: "unit_roundoff \<le> 1 / 2" and T2: "2 * tiny \<le> 1"
    by simp_all
  from foldl_error[OF b le_refl n nA] obtain s where
    s: "foldl (\<lambda>a b. js_add a (to_number b)) (Fin 0) (map (\<lambda>x. Some (Fin x)) xs) = Fin s"
    and es0: "\<bar>s - sum_list xs\<bar> \<le> of_nat (length xs) * of_nat (length xs) * unit_roundoff * A
                              + 2 * of_nat (length xs) * tiny" by blast
  have "of_nat (length xs) * of_nat (length xs) * unit_roundoff * A
          + 2 * of_nat (length xs) * tiny = N * (P + 2 * tiny)"
    by (simp add: N_def P_def algebra_simps)
  with es0 have es: "\<bar>s - T\<bar> \<le> N * (P + 2 * tiny)" by (simp only: T_def)
  have "\<bar>s / N - T / N\<bar> = \<bar>s - T\<bar> / N"
    using N0 by (simp add: diff_divide_distrib[symmetric])
  also have "\<dots> \<le> (N * (P + 2 * tiny)) / N"
    by (rule divide_right_mono[OF es]) (use N0 in simp)
  also have "\<dots> = P + 2 * tiny" using N0 by simp
  finally have e1: "\<bar>s / N - T / N\<bar> \<le> P + 2 * tiny" .
  have "\<bar>T\<bar> \<le> N * A" unfolding T_def N_def by (rule sum_list_abs_bound[OF b])
  then have "\<bar>T\<bar> / N \<le> (N * A) / N" by (rule divide_right_mono) (use N0 in simp)
  then have tn: "\<bar>T / N\<bar> \<le> A" using N0 by simp
  have "(N * unit_roundoff) * A \<le> (1 / 2) * A" by (rule mult_right_mono[OF NU A0])
  then have PA: "P \<le> (1 / 2) * A" by (simp only: P_def)
  have "(N * unit_roundoff) * V \<le> (1 / 2) * V" by (rule mult_right_mono[OF NU V0])
  moreover have "(N * unit_roundoff) * V = unit_roundoff * P"
    by (simp add: V_def P_def algebra_simps)
  ultimately have UP: "unit_roundoff * P \<le> (1 / 2) * V" by (simp only:)
  have "unit_roundoff * tiny \<le> (1 / 2) * tiny" by (rule mult_right_mono[OF U2 T0])
  then have UT: "unit_roundoff * (2 * tiny) \<le> tiny" by linarith
  have q: "\<bar>s / N\<bar> \<le> A + P + 2 * tiny" using e1 tn by linarith
  have "1 * A \<le> N * A" by (rule mult_right_mono[OF N1 A0])
  then have "A \<le> NA" by (simp add: NA_def)
  with q PA T2 A0 have "\<bar>s / N\<bar> \<le> 2 * NA + 1" by linarith
  also have "\<dots> \<le> 2 powi 1023"
    by (rule room) (use nA in \<open>simp only: NA_def N_def\<close>)
  finally have big: "\<bar>s / N\<bar> \<le> 2 powi 1023" .
  from fl_error[OF big] obtain mu where
    mu: "fl (s / N) = Fin mu" and em: "\<bar>mu - s / N\<bar> \<le> unit_roundoff * \<bar>s / N\<bar> + tiny" by blast
  have "unit_roundoff * \<bar>s / N\<bar> \<le> unit_roundoff * (A + P + 2 * tiny)"
    by (rule mult_left_mono[OF q U0])
  also have "\<dots> = V + unit_roundoff * P + unit_roundoff * (2 * tiny)"
    by (simp add: V_def distrib_left)
  finally have e2: "unit_roundoff * \<bar>s / N\<bar> \<le> 2 * V + tiny" using UP UT V0 by linarith
  have "\<bar>mu - T / N\<bar> \<le> \<bar>mu - s / N\<bar> + \<bar>s / N - T / N\<bar>" by linarith
  with em e1 e2 have tot: "\<bar>mu - T / N\<bar> \<le> P + 2 * V + 4 * tiny" by linarith
  have sl: "mean_slack (length xs) A = P + 2 * V + 4 * tiny"
    by (simp add: mean_slack_def P_def V_def N_def algebra_simps)
  have len: "js_length (map (\<lambda>x. Some (Fin x)) xs) = Fin N"
    by (simp add: js_length_def N_def)
  have "N \<noteq> 0" using N0 by simp
  then have dv: "js_div (Fin s) (Fin N) = Fin mu" by (simp add: mu)
  have "mean (calculateStats (map (\<lambda>x. Some (Fin x)) xs)) = Fin mu"
    by (simp only: calculateStats_fields(6) s len dv)
  moreover from tot have "\<bar>mu - sum_list xs / of_nat (length xs)\<bar> \<le> mean_slack (length xs) A"
    by (simp only: sl T_def N_def)
  ultimately show ?thesis by blast
qed

lemma mean_exact_sums:
  assumes ne: "xs \<noteq> []" and ex: "exactly_summed xs" and d: "\<forall>x\<in>set xs. is_double x"
  shows "\<exists>mu. mean (calculateStats (map (\<lambda>x. Some (Fin x)) xs)) = Fin mu \<and>
     fl (sum_list xs / of_nat (length xs)) = Fin mu \<and>
     sort xs ! 0 \<le> mu \<and> mu \<le> sort xs ! (length xs - 1)"
proof -
  from ex have pre: "\<forall>k. 1 \<le> k \<and> k \<le> length xs \<longrightarrow> is_double (0 + sum_list (take k xs))"
    by (auto simp: exactly_summed_def list_all_iff)
  from ne have n: "(of_nat (length xs) :: rat) \<noteq> 0" by simp
  from foldl_exact[OF pre] n
  have m: "mean (calculateStats (map (\<lambda>x. Some (Fin x)) xs))
      = fl (sum_list xs / of_nat (length xs))"
    by (simp add: calculateStats_fields js_length_def)
  from ne have pos: "0 < length xs" by simp
  then have "sort xs ! 0 \<in> set (sort xs)" and "sort xs ! (length xs - 1) \<in> set (sort xs)"
    by (simp_all del: set_sort)
  then have "sort xs ! 0 \<in> set xs" and "sort xs ! (length xs - 1) \<in> set xs" by simp_all
  with d have lo: "is_double (sort xs ! 0)" and hi: "is_double (sort xs ! (length xs - 1))"
    by blast+
  from fl_between[OF lo hi mean_between[OF ne]] m show ?thesis by auto
qed

lemma is_double_huge: "is_double huge"
proof -
  have "fl (of_int (2 ^ 52) * 2 powi 971) = Fin (of_int (2 ^ 52) * 2 powi 971)"
    by (rule fl_exact) simp_all
  moreover have "(of_int (2 ^ 52) :: rat) = 2 powi 52"
    by (simp only: power_int_numeral of_int_power of_int_numeral)
  moreover have "(2::rat) powi 52 * 2 powi 971 = 2 powi 1023" by (rule two_powi_mult) simp
  ultimately show ?thesis by (simp only: is_double_def huge_def)
qed

lemma fl_huge_doubled: "fl (huge + huge) = PInf"
proof -
  have "round_magnitude (of_int 1 * 2 powi 1024) = of_int 1 * 2 powi 1024"
    by (rule round_magnitude_exact) simp_all
  then have r: "round_magnitude (2 powi 1024) = 2 powi 1024" by simp
  have "(2::rat) powi 1 * 2 powi 1023 = 2 powi 1024" by (rule two_powi_mult) simp
  then have h: "huge + huge = 2 powi 1024" by (simp add: huge_def)
  have "(0::rat) < 2 powi 1024" by simp
  from fl_pos[OF this] r have "fl (2 powi 1024) = PInf"
    by (simp only: overflow_threshold_def order_refl if_True)
  then show ?thesis by (simp only: h)
qed

lemma mean_huge: "mean (calculateStats [Some (Fin huge), Some (Fin huge)]) = PInf"
proof -
  have z: "fl huge = Fin huge" using is_double_huge by (simp only: is_double_def)
  have s1: "js_add (Fin 0) (Fin huge) = Fin huge" by (simp add: z)
  have s2: "js_add (Fin huge) (Fin huge) = PInf" by (simp only: js_add.simps fl_huge_doubled)
  have fold: "foldl (\<lambda>a b. js_add a (to_number b)) (Fin 0) [Some (Fin huge), Some (Fin huge)] = PInf"
    by (simp only: foldl.simps to_number_def option.case s1 s2)
  have len: "js_length [Some (Fin huge), Some (Fin huge)] = Fin 2"
    by (simp add: js_length_def)
  have dv: "js_div PInf (Fin 2) = PInf" by simp
  show ?thesis by (simp only: calculateStats_fields(6) fold len dv)
qed

text \<open>
  C2 (as the code has it).  For a non-empty series of finite numbers (fewer than \<open>2\<^sup>3\<^sup>2\<close>),
  min and max are the first and the last element of the ascending sort and
  \<open>min \<le> median \<le> max\<close>.  The mean is the rounded quotient of a rounded running sum.
  When no addition of the running sum rounds, it is the rounded exact average and
  \<open>min \<le> mean \<le> max\<close> (the rounding of the quotient alone never leaves the interval).
  In general, when \<open>N \<cdot> max(|min|, |max|) \<le> 2\<^sup>1\<^sup>0\<^sup>2\<^sup>1\<close> (so that no sum overflows), the mean
  is within \<open>(N + 2) \<cdot> 2\<^sup>-\<^sup>5\<^sup>3 \<cdot> max(|min|, |max|) + 2\<^sup>-\<^sup>1\<^sup>0\<^sup>7\<^sup>3\<close> of the exact average, hence
  of the interval from min to max.
\<close>

theorem calculateStats_bounds:
  assumes "xs \<noteq> []" and "length xs < 2 ^ 32" and "\<forall>x\<in>set xs. is_double x"
  shows "\<exists>lo md hi.
     min_stat (calculateStats (map (\<lambda>x. Some (Fin x)) xs)) = Some (Fin lo) \<and>
     max_stat (calculateStats (map (\<lambda>x. Some (Fin x)) xs)) = Some (Fin hi) \<and>
     median (calculateStats (map (\<lambda>x. Some (Fin x)) xs)) = Some (Fin md) \<and>
     lo = sort xs ! 0 \<and> hi = sort xs ! (length xs - 1) \<and> lo \<le> md \<and> md \<le> hi \<and>
     (exactly_summed xs \<longrightarrow>
        (\<exists>mu. mean (calculateStats (map (\<lambda>x. Some (Fin x)) xs)) = Fin mu \<and>
              fl (sum_list xs / of_nat (length xs)) = Fin mu \<and> lo \<le> mu \<and> mu \<le> hi)) \<and>
     (of_nat (length xs) * max \<bar>lo\<bar> \<bar>hi\<bar> \<le> 2 powi 1021 \<longrightarrow>
        (\<exists>mu. mean (calculateStats (map (\<lambda>x. Some (Fin x)) xs)) = Fin mu \<and>
              \<bar>mu - sum_list xs / of_nat (length xs)\<bar> \<le> mean_slack (length xs) (max \<bar>lo\<bar> \<bar>hi\<bar>) \<and>
              lo - mean_slack (length xs) (max \<bar>lo\<bar> \<bar>hi\<bar>) \<le> mu \<and>
              mu \<le> hi + mean_slack (length xs) (max \<bar>lo\<bar> \<bar>hi\<bar>)))"
proof -
  define lo where "lo = sort xs ! 0"
  define hi where "hi = sort xs ! (length xs - 1)"
  define A where "A = max \<bar>lo\<bar> \<bar>hi\<bar>"
  let ?S = "map (\<lambda>x. Some (Fin x)) xs"
  from assms(1) have l: "1 \<le> length xs" by (cases xs) simp_all
  then have i: "length xs div 2 < length xs" by linarith
  note st = stats_doubles[OF l assms(2,3), folded lo_def hi_def]
  note md = sort_nth_bounds[OF i, folded lo_def hi_def]
  note avg = mean_between[OF assms(1), folded lo_def hi_def]
  have ex: "exactly_summed xs \<longrightarrow>
        (\<exists>mu. mean (calculateStats ?S) = Fin mu \<and>
              fl (sum_list xs / of_nat (length xs)) = Fin mu \<and> lo \<le> mu \<and> mu \<le> hi)"
  proof
    assume "exactly_summed xs"
    from mean_exact_sums[OF assms(1) this assms(3)]
    show "\<exists>mu. mean (calculateStats ?S) = Fin mu \<and>
              fl (sum_list xs / of_nat (length xs)) = Fin mu \<and> lo \<le> mu \<and> mu \<le> hi"
      by (simp only: lo_def hi_def)
  qed
  have gen: "of_nat (length xs) * A \<le> 2 powi 1021 \<longrightarrow>
        (\<exists>mu. mean (calculateStats ?S) = Fin mu \<and>
              \<bar>mu - sum_list xs / of_nat (length xs)\<bar> \<le> mean_slack (length xs) A \<and>
              lo - mean_slack (length xs) A \<le> mu \<and> mu \<le> hi + mean_slack (length xs) A)"
  proof
    assume nA: "of_nat (length xs) * A \<le> 2 powi 1021"
    have b: "\<forall>x\<in>set xs. \<bar>x\<bar> \<le> A"
    proof
      fix x assume "x \<in> set xs"
      from sort_bounds_all[OF this] have "lo \<le> x" "x \<le> hi" by (simp_all only: lo_def hi_def)
      then show "\<bar>x\<bar> \<le> A" unfolding A_def by linarith
    qed
    from mean_error[OF assms(1,2) b nA] obtain mu where
      m: "mean (calculateStats ?S) = Fin mu" and
      e: "\<bar>mu - sum_list xs / of_nat (length xs)\<bar> \<le> mean_slack (length xs) A" by blast
    from e avg have "lo - mean_slack (length xs) A \<le> mu" "mu \<le> hi + mean_slack (length xs) A"
      by linarith+
    with m e show "\<exists>mu. mean (calculateStats ?S) = Fin mu \<and>
              \<bar>mu - sum_list xs / of_nat (length xs)\<bar> \<le> mean_slack (length xs) A \<and>
              lo - mean_slack (length xs) A \<le> mu \<and> mu \<le> hi + mean_slack (length xs) A"
      by blast
  qed
  have "min_stat (calculateStats ?S) = Some (Fin lo) \<and>
     max_stat (calculateStats ?S) = Some (Fin hi) \<and>
     median (calculateStats ?S) = Some (Fin (sort xs ! (length xs div 2))) \<and>
     lo = sort xs ! 0 \<and> hi = sort xs ! (length xs - 1) \<and>
     lo \<le> sort xs ! (length xs div 2) \<and> sort xs ! (length xs div 2) \<le> hi \<and>
     (exactly_summed xs \<longrightarrow>
        (\<exists>mu. mean (calculateStats ?S) = Fin mu \<and>
              fl (sum_list xs / of_nat (length xs)) = Fin mu \<and> lo \<le> mu \<and> mu \<le> hi)) \<and>
     (of_nat (length xs) * max \<bar>lo\<bar> \<bar>hi\<bar> \<le> 2 powi 1021 \<longrightarrow>
        (\<exists>mu. mean (calculateStats ?S) = Fin mu \<and>
              \<bar>mu - sum_list xs / of_nat (length xs)\<bar> \<le> mean_slack (length xs) (max \<bar>lo\<bar> \<bar>hi\<bar>) \<and>
              lo - mean_slack (length xs) (max \<bar>lo\<bar> \<bar>hi\<bar>) \<le> mu \<and>
              mu \<le> hi + mean_slack (length xs) (max \<bar>lo\<bar> \<bar>hi\<bar>)))"
    by (intro conjI st md ex gen[unfolded A_def] lo_def hi_def)
  then show ?thesis by blast
qed

theorem calculateStats_bounds_witness:
  "(\<exists>lo md hi mu.
     min_stat (calculateStats [Some (Fin 3), Some (Fin 1), Some (Fin 2)]) = Some (Fin lo) \<and>
     max_stat (calculateStats [Some (Fin 3), Some (Fin 1), Some (Fin 2)]) = Some (Fin hi) \<and>
     median (calculateStats [Some (Fin 3), Some (Fin 1), Some (Fin 2)]) = Some (Fin md) \<and>
     mean (calculateStats [Some (Fin 3), Some (Fin 1), Some (Fin 2)]) = Fin mu \<and>
     lo = 1 \<and> hi = 3 \<and> lo \<le> md \<and> md \<le> hi \<and> mu = 2 \<and> lo \<le> mu \<and> mu \<le> hi \<and>
     \<bar>mu - 2\<bar> \<le> mean_slack 3 3) \<and>
   (\<exists>mu. mean (calculateStats [Some (Fin tenth), Some (Fin tenth), Some (Fin tenth)]) = Fin mu \<and>
     tenth < mu \<and> mu \<le> tenth + mean_slack 3 tenth)"
proof -
  let ?xs = "[3, 1, 2 :: rat]"
  let ?S = "map (\<lambda>x. Some (Fin x)) ?xs"
  have a: "?xs \<noteq> []" and b: "length ?xs < 2 ^ 32" by simp_all
  have c: "\<forall>x\<in>set ?xs. is_double x" by (simp add: small_doubles)
  have upt: "[1..<4] = [1, 2, 3 :: nat]" by (simp add: upt_rec)
  have e: "exactly_summed ?xs"
    by (simp add: exactly_summed_def upt small_doubles)
  have "(2::rat) powi 4 \<le> 2 powi 1021" by (rule two_powi_mono) simp
  then have nine: "(9::rat) \<le> 2 powi 1021" by simp
  from calculateStats_bounds[OF a b c] obtain lo md hi where
    h: "min_stat (calculateStats ?S) = Some (Fin lo)"
       "max_stat (calculateStats ?S) = Some (Fin hi)"
       "median (calculateStats ?S) = Some (Fin md)"
       "lo = sort ?xs ! 0" "hi = sort ?xs ! (length ?xs - 1)" "lo \<le> md" "md \<le> hi"
       "exactly_summed ?xs \<longrightarrow>
          (\<exists>mu. mean (calculateStats ?S) = Fin mu \<and>
                fl (sum_list ?xs / of_nat (length ?xs)) = Fin mu \<and> lo \<le> mu \<and> mu \<le> hi)"
       "of_nat (length ?xs) * max \<bar>lo\<bar> \<bar>hi\<bar> \<le> 2 powi 1021 \<longrightarrow>
          (\<exists>mu. mean (calculateStats ?S) = Fin mu \<and>
              \<bar>mu - sum_list ?xs / of_nat (length ?xs)\<bar>
                 \<le> mean_slack (length ?xs) (max \<bar>lo\<bar> \<bar>hi\<bar>) \<and>
              lo - mean_slack (length ?xs) (max \<bar>lo\<bar> \<bar>hi\<bar>) \<le> mu \<and>
              mu \<le> hi + mean_slack (length ?xs) (max \<bar>lo\<bar> \<bar>hi\<bar>))"
    by blast
  have lo: "lo = 1" using h(4) by simp
  have hi: "hi = 3" using h(5) by simp
  from h(8) e obtain mu where
    mu: "mean (calculateStats ?S) = Fin mu" "fl (sum_list ?xs / of_nat (length ?xs)) = Fin mu"
      "lo \<le> mu" "mu \<le> hi"
    by blast
  have "fl (sum_list ?xs / of_nat (length ?xs)) = Fin 2"
    using small_doubles(2) by (simp add: is_double_def)
  with mu(2) have two: "mu = 2" by simp
  have "of_nat (length ?xs) * max \<bar>lo\<bar> \<bar>hi\<bar> \<le> 2 powi 1021"
    using nine by (simp add: lo hi)
  with h(9) obtain mu' where
    mu': "mean (calculateStats ?S) = Fin mu'"
      "\<bar>mu' - sum_list ?xs / of_nat (length ?xs)\<bar> \<le> mean_slack (length ?xs) (max \<bar>lo\<bar> \<bar>hi\<bar>)"
    by blast
  from mu(1) mu'(1) have "mu' = mu" by simp
  with mu'(2) have sl: "\<bar>mu - 2\<bar> \<le> mean_slack 3 3" by (simp add: lo hi numeral_3_eq_3)
  have m: "?S = [Some (Fin 3), Some (Fin 1), Some (Fin 2)]" by simp
  from h(1,2,3) mu(1) lo hi h(6,7) two mu(3,4) sl
  have first: "\<exists>lo md hi mu.
     min_stat (calculateStats [Some (Fin 3), Some (Fin 1), Some (Fin 2)]) = Some (Fin lo) \<and>
     max_stat (calculateStats [Some (Fin 3), Some (Fin 1), Some (Fin 2)]) = Some (Fin hi) \<and>
     median (calculateStats [Some (Fin 3), Some (Fin 1), Some (Fin 2)]) = Some (Fin md) \<and>
     mean (calculateStats [Some (Fin 3), Some (Fin 1), Some (Fin 2)]) = Fin mu \<and>
     lo = 1 \<and> hi = 3 \<and> lo \<le> md \<and> md \<le> hi \<and> mu = 2 \<and> lo \<le> mu \<and> mu \<le> hi \<and>
     \<bar>mu - 2\<bar> \<le> mean_slack 3 3"
    unfolding m by blast
  let ?ts = "[tenth, tenth, tenth]"
  let ?T = "map (\<lambda>x. Some (Fin x)) ?ts"
  have a': "?ts \<noteq> []" and b': "length ?ts < 2 ^ 32" by simp_all
  have c': "\<forall>x\<in>set ?ts. is_double x" by (simp add: is_double_tenth)
  from calculateStats_bounds[OF a' b' c'] obtain lo' hi' where
    g: "lo' = sort ?ts ! 0" "hi' = sort ?ts ! (length ?ts - 1)"
       "of_nat (length ?ts) * max \<bar>lo'\<bar> \<bar>hi'\<bar> \<le> 2 powi 1021 \<longrightarrow>
          (\<exists>mu. mean (calculateStats ?T) = Fin mu \<and>
              \<bar>mu - sum_list ?ts / of_nat (length ?ts)\<bar>
                 \<le> mean_slack (length ?ts) (max \<bar>lo'\<bar> \<bar>hi'\<bar>) \<and>
              lo' - mean_slack (length ?ts) (max \<bar>lo'\<bar> \<bar>hi'\<bar>) \<le> mu \<and>
              mu \<le> hi' + mean_slack (length ?ts) (max \<bar>lo'\<bar> \<bar>hi'\<bar>))"
    by blast
  have lo': "lo' = tenth" using g(1) by simp
  have hi': "hi' = tenth" using g(2) by simp
  have t0: "0 \<le> tenth" "tenth \<le> 1" by (simp_all add: tenth_def)
  then have "3 * tenth \<le> 9" by linarith
  with nine have "3 * tenth \<le> 2 powi 1021" by linarith
  with t0 have "of_nat (length ?ts) * max \<bar>lo'\<bar> \<bar>hi'\<bar> \<le> 2 powi 1021"
    by (simp add: lo' hi')
  with g(3) obtain mu where
    t: "mean (calculateStats ?T) = Fin mu"
       "mu \<le> hi' + mean_slack (length ?ts) (max \<bar>lo'\<bar> \<bar>hi'\<bar>)" by blast
  from t(2) t0 have up: "mu \<le> tenth + mean_slack 3 tenth" by (simp add: lo' hi' numeral_3_eq_3)
  have mT: "?T = [Some (Fin tenth), Some (Fin tenth), Some (Fin tenth)]" by simp
  from t(1) mean_tenths have "mu = 7205759403792795 / 72057594037927936" by (simp only: mT jsnum.inject)
  then have "tenth < mu" by (simp add: tenth_def)
  with t(1) up have second: "\<exists>mu. mean (calculateStats [Some (Fin tenth), Some (Fin tenth), Some (Fin tenth)]) = Fin mu \<and>
     tenth < mu \<and> mu \<le> tenth + mean_slack 3 tenth"
    unfolding mT by blast
  from first second show ?thesis by (rule conjI)
qed

theorem calculateStats_bounds_counterexample:
  "fl (1 / 10) = Fin tenth \<and> is_double tenth \<and>
   max_stat (calculateStats [Some (Fin tenth), Some (Fin tenth), Some (Fin tenth)])
     = Some (Fin tenth) \<and>
   mean (calculateStats [Some (Fin tenth), Some (Fin tenth), Some (Fin tenth)])
     = Fin (7205759403792795 / 72057594037927936) \<and>
   tenth < 7205759403792795 / 72057594037927936 \<and>
   \<not> js_le (mean (calculateStats [Some (Fin tenth), Some (Fin tenth), Some (Fin tenth)]))
           (to_number (max_stat (calculateStats [Some (Fin tenth), Some (Fin tenth), Some (Fin tenth)]))) \<and>
   is_double huge \<and>
   max_stat (calculateStats [Some (Fin huge), Some (Fin huge)]) = Some (Fin huge) \<and>
   mean (calculateStats [Some (Fin huge), Some (Fin huge)]) = PInf"
proof -
  let ?xs = "[tenth, tenth, tenth]"
  have l: "1 \<le> length ?xs" "length ?xs < 2 ^ 32" by simp_all
  have d: "\<forall>x\<in>set ?xs. is_double x" by (simp add: is_double_tenth)
  from stats_doubles(2)[OF l d]
  have mx: "max_stat (calculateStats [Some (Fin tenth), Some (Fin tenth), Some (Fin tenth)])
      = Some (Fin tenth)" by simp
  have lt: "tenth < 7205759403792795 / 72057594037927936" by (simp add: tenth_def)
  let ?hs = "[huge, huge]"
  have lh: "1 \<le> length ?hs" "length ?hs < 2 ^ 32" by simp_all
  have dh: "\<forall>x\<in>set ?hs. is_double x" by (simp add: is_double_huge)
  from stats_doubles(2)[OF lh dh]
  have mh: "max_stat (calculateStats [Some (Fin huge), Some (Fin huge)]) = Some (Fin huge)"
    by simp
  from fl_tenth is_double_tenth mx mean_tenths lt is_double_huge mh mean_huge show ?thesis
    by (simp add: to_number_def)
qed

section \<open>Memory deltas\<close>

lemma js_sub_nat:
  assumes "x < 2 ^ 53" "y < 2 ^ 53"
  shows "js_sub (Fin (of_nat x)) (Fin (of_nat y)) = Fin (of_int (int x - int y))"
proof -
  from assms have "int x < 2 ^ 53" "int y < 2 ^ 53" by simp_all
  then have b: "\<bar>int x - int y\<bar> < 2 ^ 53" by linarith
  have "js_sub (Fin (of_nat x)) (Fin (of_nat y)) = fl (of_nat x - of_nat y)"
    by (rule js_sub_Fin)
  also have "(of_nat x - of_nat y :: rat) = of_int (int x - int y)" by simp
  also have "fl (of_int (int x - int y)) = Fin (of_int (int x - int y))"
    by (rule fl_of_int[OF b])
  finally show ?thesis .
qed

text \<open>
  C9.  \<open>calculateMemoryUsage\<close> returns the unavailable sentinel as soon as one of the two
  snapshots is the sentinel, and otherwise the four differences \<open>after.x - before.x\<close>,
  for \<open>heapUsed\<close>, \<open>heapTotal\<close>, \<open>external\<close> and \<open>rss\<close>; for the byte counts of
  \<^verbatim>\<open>process.memoryUsage()\<close> (naturals below \<open>2\<^sup>5\<^sup>3\<close>) these are the exact integer
  differences.
\<close>

theorem calculateMemoryUsage_delta:
  "calculateMemoryUsage Unavailable after = DeltaUnavailable \<and>
   calculateMemoryUsage before Unavailable = DeltaUnavailable \<and>
   (before \<noteq> Unavailable \<and> after \<noteq> Unavailable \<longrightarrow>
      calculateMemoryUsage before after = Delta \<lparr>
        heapUsed = js_sub (to_number (snapshot_field heapUsed after))
                          (to_number (snapshot_field heapUsed before)),
        heapTotal = js_sub (to_number (snapshot_field heapTotal after))
                           (to_number (snapshot_field heapTotal before)),
        external = js_sub (to_number (snapshot_field external after))
                          (to_number (snapshot_field external before)),
        rss = js_sub (to_number (snapshot_field rss after))
                     (to_number (snapshot_field rss before)) \<rparr>) \<and>
   calculateMemoryUsage (NodeMemory b) (NodeMemory a) = Delta \<lparr>
        heapUsed = js_sub (heapUsed a) (heapUsed b),
        heapTotal = js_sub (heapTotal a) (heapTotal b),
        external = js_sub (external a) (external b),
        rss = js_sub (rss a) (rss b) \<rparr> \<and>
   (hu < 2 ^ 53 \<and> ht < 2 ^ 53 \<and> ex < 2 ^ 53 \<and> rs < 2 ^ 53 \<and>
    hu' < 2 ^ 53 \<and> ht' < 2 ^ 53 \<and> ex' < 2 ^ 53 \<and> rs' < 2 ^ 53 \<longrightarrow>
      calculateMemoryUsage
        (NodeMemory \<lparr> heapUsed = Fin (of_nat hu), heapTotal = Fin (of_nat ht),
                      external = Fin (of_nat ex), rss = Fin (of_nat rs) \<rparr>)
        (NodeMemory \<lparr> heapUsed = Fin (of_nat hu'), heapTotal = Fin (of_nat ht'),
                      external = Fin (of_nat ex'), rss = Fin (of_nat rs') \<rparr>)
      = Delta \<lparr> heapUsed = Fin (of_int (int hu' - int hu)),
                 heapTotal = Fin (of_int (int ht' - int ht)),
                 external = Fin (of_int (int ex' - int ex)),
                 rss = Fin (of_int (int rs' - int rs)) \<rparr>)"
proof (intro conjI impI)
  show "calculateMemoryUsage Unavailable after = DeltaUnavailable"
    by (simp add: calculateMemoryUsage_def unavailable_def)
  show "calculateMemoryUsage before Unavailable = DeltaUnavailable"
    by (simp add: calculateMemoryUsage_def unavailable_def)
  show "calculateMemoryUsage (NodeMemory b) (NodeMemory a) = Delta \<lparr>
        heapUsed = js_sub (heapUsed a) (heapUsed b),
        heapTotal = js_sub (heapTotal a) (heapTotal b),
        external = js_sub (external a) (external b),
        rss = js_sub (rss a) (rss b) \<rparr>"
    by (simp add: calculateMemoryUsage_def unavailable_def snapshot_field_def to_number_def)
next
  assume "before \<noteq> Unavailable \<and> after \<noteq> Unavailable"
  then show "calculateMemoryUsage before after = Delta \<lparr>
        heapUsed = js_sub (to_number (snapshot_field heapUsed after))
                          (to_number (snapshot_field heapUsed before)),
        heapTotal = js_sub (to_number (snapshot_field heapTotal after))
                           (to_number (snapshot_field heapTotal before)),
        external = js_sub (to_number (snapshot_field external after))
                          (to_number (snapshot_field external before)),
        rss = js_sub (to_number (snapshot_field rss after))
                     (to_number (snapshot_field rss before)) \<rparr>"
    by (simp add: calculateMemoryUsage_def unavailable_def)
next
  assume h: "hu < 2 ^ 53 \<and> ht < 2 ^ 53 \<and> ex < 2 ^ 53 \<and> rs < 2 ^ 53 \<and>
    hu' < 2 ^ 53 \<and> ht' < 2 ^ 53 \<and> ex' < 2 ^ 53 \<and> rs' < 2 ^ 53"
  then have s: "js_sub (Fin (of_nat hu')) (Fin (of_nat hu)) = Fin (of_int (int hu' - int hu))"
    "js_sub (Fin (of_nat ht')) (Fin (of_nat ht)) = Fin (of_int (int ht' - int ht))"
    "js_sub (Fin (of_nat ex')) (Fin (of_nat ex)) = Fin (of_int (int ex' - int ex))"
    "js_sub (Fin (of_nat rs')) (Fin (of_nat rs)) = Fin (of_int (int rs' - int rs))"
    by (simp_all only: js_sub_nat)
  show "calculateMemoryUsage
        (NodeMemory \<lparr> heapUsed = Fin (of_nat hu), heapTotal = Fin (of_nat ht),
                      external = Fin (of_nat ex), rss = Fin (of_nat rs) \<rparr>)
        (NodeMemory \<lparr> heapUsed = Fin (of_nat hu'), heapTotal = Fin (of_nat ht'),
                      external = Fin (of_nat ex'), rss = Fin (of_nat rs') \<rparr>)
      = Delta \<lparr> heapUsed = Fin (of_int (int hu' - int hu)),
                 heapTotal = Fin (of_int (int ht' - int ht)),
                 external = Fin (of_int (int ex' - int ex)),
                 rss = Fin (of_int (int rs' - int rs)) \<rparr>"
    by (simp only: calculateMemoryUsage_def unavailable_def snapshot_field_def to_number_def
          snapshot.simps snapshot.case option.case memory_usage.simps s simp_thms if_False)
qed

theorem calculateMemoryUsage_delta_witness:
  "calculateMemoryUsage
     (NodeMemory \<lparr> heapUsed = Fin (of_nat 1000), heapTotal = Fin (of_nat 4096),
                   external = Fin (of_nat 100), rss = Fin (of_nat 8192) \<rparr>)
     (NodeMemory \<lparr> heapUsed = Fin (of_nat 1008), heapTotal = Fin (of_nat 4096),
                   external = Fin (of_nat 90), rss = Fin (of_nat 8192) \<rparr>)
   = Delta \<lparr> heapUsed = Fin (of_int (int 1008 - int 1000)),
              heapTotal = Fin (of_int (int 4096 - int 4096)),
              external = Fin (of_int (int 90 - int 100)),
              rss = Fin (of_int (int 8192 - int 8192)) \<rparr> \<and>
   calculateMemoryUsage BrowserMemory Unavailable = DeltaUnavailable \<and>
   calculateMemoryUsage BrowserMemory BrowserMemory
     = Delta \<lparr> heapUsed = NaN, heapTotal = NaN, external = NaN, rss = NaN \<rparr>"
proof -
  have b: "(1000::nat) < 2 ^ 53 \<and> (4096::nat) < 2 ^ 53 \<and> (100::nat) < 2 ^ 53 \<and> (8192::nat) < 2 ^ 53 \<and>
    (1008::nat) < 2 ^ 53 \<and> (4096::nat) < 2 ^ 53 \<and> (90::nat) < 2 ^ 53 \<and> (8192::nat) < 2 ^ 53"
    by simp
  note inst = calculateMemoryUsage_delta[of BrowserMemory BrowserMemory _ _
      1000 4096 100 8192 1008 4096 90 8192]
  from inst have p1: "calculateMemoryUsage BrowserMemory Unavailable = DeltaUnavailable"
    by (rule conjunct1[OF conjunct2])
  have av: "BrowserMemory \<noteq> Unavailable \<and> BrowserMemory \<noteq> Unavailable" by simp
  from conjunct1[OF conjunct2[OF conjunct2[OF inst]], THEN mp, OF av]
  have p2: "calculateMemoryUsage BrowserMemory BrowserMemory
     = Delta \<lparr> heapUsed = NaN, heapTotal = NaN, external = NaN, rss = NaN \<rparr>"
    by (simp add: snapshot_field_def to_number_def js_sub_def)
  note p3 = conjunct2[OF conjunct2[OF conjunct2[OF conjunct2[OF inst]]], THEN mp, OF b]
  from p3 p1 p2 show ?thesis by (intro conjI)
qed

section \<open>The validators of \<^verbatim>\<open>TEST_CONFIGS\<close>\<close>

lemma array_validator_cases:
  "length (discrepancies (array_validator tol w j)) \<le> 3"
  "success (array_validator tol w j) \<longleftrightarrow> discrepancies (array_validator tol w j) = []"
  by (auto simp: array_validator_def Let_def split: jsval.splits)

lemma array_validator_arrays:
  assumes "length w = length j"
  shows "discrepancies (array_validator tol (Arr w) (Arr j)) = take 3 (element_discrepancies tol w j)"
    and "success (array_validator tol (Arr w) (Arr j)) \<longleftrightarrow> element_discrepancies tol w j = []"
  using assms by (simp_all add: array_validator_def Let_def)

lemma four_NaN_discrepancies:
  "element_discrepancies tol [Some NaN, Some NaN, Some NaN, Some NaN]
       [Some (Fin 1), Some (Fin 1), Some (Fin 1), Some (Fin 1)]
     = [ContainsNaN 0 (Some NaN) (Some (Fin 1)), ContainsNaN 1 (Some NaN) (Some (Fin 1)),
        ContainsNaN 2 (Some NaN) (Some (Fin 1)), ContainsNaN 3 (Some NaN) (Some (Fin 1))]"
proof -
  have u: "[0..<4] = [0, 1, 2, 3 :: nat]" by (simp add: upt_rec)
  show ?thesis
    by (simp add: element_discrepancies_def u check_index_def js_nth_def Let_def
          to_number_def js_isNaN_def)
qed

text \<open>
  C5 (as the code has it).  The fft and the gradient validator of \<open>TEST_CONFIGS\<close> return
  at most 3 discrepancies, hence at most 5: the list is cut to its first 3 entries, not
  to the first 5.  \<open>success\<close> is true exactly when the list before the cut is empty,
  which is exactly when the returned list is empty.
\<close>

theorem validator_discrepancies_capped:
  "length (discrepancies (fft_validator w j)) \<le> 3 \<and>
   length (discrepancies (gradient_validator w j)) \<le> 3 \<and>
   length (discrepancies (fft_validator w j)) \<le> 5 \<and>
   length (discrepancies (gradient_validator w j)) \<le> 5 \<and>
   (success (fft_validator w j) \<longleftrightarrow> discrepancies (fft_validator w j) = []) \<and>
   (success (gradient_validator w j) \<longleftrightarrow> discrepancies (gradient_validator w j) = []) \<and>
   (length wr = length jr \<longrightarrow>
      discrepancies (fft_validator (Arr wr) (Arr jr))
        = take 3 (element_discrepancies (fl (1 / 100)) wr jr) \<and>
      (success (fft_validator (Arr wr) (Arr jr))
        \<longleftrightarrow> element_discrepancies (fl (1 / 100)) wr jr = []) \<and>
      discrepancies (gradient_validator (Arr wr) (Arr jr))
        = take 3 (element_discrepancies (fl (15 / 100)) wr jr) \<and>
      (success (gradient_validator (Arr wr) (Arr jr))
        \<longleftrightarrow> element_discrepancies (fl (15 / 100)) wr jr = []))"
proof -
  have a: "length (discrepancies (fft_validator w j)) \<le> 3"
    "length (discrepancies (gradient_validator w j)) \<le> 3"
    unfolding fft_validator_def gradient_validator_def by (rule array_validator_cases(1))+
  then have b: "length (discrepancies (fft_validator w j)) \<le> 5"
    "length (discrepancies (gradient_validator w j)) \<le> 5" by linarith+
  have c: "success (fft_validator w j) \<longleftrightarrow> discrepancies (fft_validator w j) = []"
    "success (gradient_validator w j) \<longleftrightarrow> discrepancies (gradient_validator w j) = []"
    unfolding fft_validator_def gradient_validator_def by (rule array_validator_cases(2))+
  have d: "length wr = length jr \<longrightarrow>
      discrepancies (fft_validator (Arr wr) (Arr jr))
        = take 3 (element_discrepancies (fl (1 / 100)) wr jr) \<and>
      (success (fft_validator (Arr wr) (Arr jr))
        \<longleftrightarrow> element_discrepancies (fl (1 / 100)) wr jr = []) \<and>
      discrepancies (gradient_validator (Arr wr) (Arr jr))
        = take 3 (element_discrepancies (fl (15 / 100)) wr jr) \<and>
      (success (gradient_validator (Arr wr) (Arr jr))
        \<longleftrightarrow> element_discrepancies (fl (15 / 100)) wr jr = [])"
    unfolding fft_validator_def gradient_validator_def
    by (intro impI conjI array_validator_arrays)
  from a b c d show ?thesis by (intro conjI)
qed

theorem validator_discrepancies_capped_witness:
  "discrepancies (fft_validator (Arr [Some NaN, Some NaN, Some NaN, Some NaN])
       (Arr [Some (Fin 1), Some (Fin 1), Some (Fin 1), Some (Fin 1)]))
     = [ContainsNaN 0 (Some NaN) (Some (Fin 1)), ContainsNaN 1 (Some NaN) (Some (Fin 1)),
        ContainsNaN 2 (Some NaN) (Some (Fin 1))] \<and>
   \<not> success (fft_validator (Arr [Some NaN, Some NaN, Some NaN, Some NaN])
       (Arr [Some (Fin 1), Some (Fin 1), Some (Fin 1), Some (Fin 1)]))"
proof -
  let ?w = "[Some NaN, Some NaN, Some NaN, Some NaN]"
  let ?j = "[Some (Fin 1), Some (Fin 1), Some (Fin 1), Some (Fin 1)]"
  have l: "length ?w = length ?j" by simp
  note inst = validator_discrepancies_capped[of _ _ ?w ?j]
  note p = conjunct2[OF conjunct2[OF conjunct2[OF conjunct2[OF conjunct2[OF conjunct2[OF inst]]]]],
      THEN mp, OF l]
  from p show ?thesis by (simp add: four_NaN_discrepancies)
qed

theorem validator_discrepancies_capped_counterexample:
  "length (element_discrepancies (fl (1 / 100)) [Some NaN, Some NaN, Some NaN, Some NaN]
       [Some (Fin 1), Some (Fin 1), Some (Fin 1), Some (Fin 1)]) = 4 \<and>
   length (discrepancies (fft_validator (Arr [Some NaN, Some NaN, Some NaN, Some NaN])
       (Arr [Some (Fin 1), Some (Fin 1), Some (Fin 1), Some (Fin 1)]))) = 3 \<and>
   discrepancies (fft_validator (Arr [Some NaN, Some NaN, Some NaN, Some NaN])
       (Arr [Some (Fin 1), Some (Fin 1), Some (Fin 1), Some (Fin 1)]))
     \<noteq> take 5 (element_discrepancies (fl (1 / 100)) [Some NaN, Some NaN, Some NaN, Some NaN]
       [Some (Fin 1), Some (Fin 1), Some (Fin 1), Some (Fin 1)])"
proof -
  let ?w = "[Some NaN, Some NaN, Some NaN, Some NaN]"
  let ?j = "[Some (Fin 1), Some (Fin 1), Some (Fin 1), Some (Fin 1)]"
  have l: "length ?w = length ?j" by simp
  have "discrepancies (fft_validator (Arr ?w) (Arr ?j))
      = take 3 (element_discrepancies (fl (1 / 100)) ?w ?j)"
    unfolding fft_validator_def by (rule array_validator_arrays(1)[OF l])
  then show ?thesis by (simp add: four_NaN_discrepancies)
qed

section \<open>The timing series and the speedup\<close>


















end
